theory Spec2Isabelle
  imports Main "HOL-Library.Word"
begin

section \<open>Disk usage collector of diskinfo-webui\<close>

text \<open>
  The development follows the latest revision of the collector: \<open>humanReadableSize\<close>,
  \<open>contains\<close> and \<open>gatherDiskInfo (ignoreTypes, hostProc)\<close>. The operating system
  (gopsutil's \<open>disk.PartitionsWithContext\<close> and \<open>disk.Usage\<close>) and
  \<open>filepath.Join\<close> are not part of the repository; they are parameters of the model.

  The sources also hold earlier revisions of the program: \<open>FetchDiskInfo\<close>, which
  truncates the percentage to an integer and looks for ignored names in the device, and
  two \<open>gatherDiskInfo\<close> that check neither the mount point nor the errors of the
  operating system. Their size formatter is the one modelled here; their collectors are
  not modelled.

  Where a name of the source is a constant of HOL, the model shortens it: \<open>sz\<close> for
  \<open>size\<close>, \<open>dv\<close> for \<open>div\<close>, \<open>ex\<close> for \<open>exp\<close>, \<open>ss\<close> for \<open>slice\<close>.
\<close>

subsection \<open>float64 values, their arithmetic and their printing\<close>

text \<open>
  A \<open>float64\<close> is a sign (\<open>True\<close> for minus) with a fraction \<open>num / den\<close>, an
  infinity, or NaN.
\<close>

datatype float64 = Finite bool nat nat | Infinite bool | NaN

text \<open>The fraction \<open>a / b\<close> rounded to the nearest integer, ties to the even one.\<close>

definition round_half_even :: "nat \<Rightarrow> nat \<Rightarrow> nat" where
  "round_half_even a b =
     (let q = a div b; r = a mod b in
      if 2 * r < b then q
      else if b < 2 * r then q + 1
      else if even q then q else q + 1)"

text \<open>
  The least \<open>s\<close> from which \<open>a / (b * 2 ^ s)\<close> is below \<open>2 ^ 53\<close>, and the least
  \<open>t\<close> from which \<open>a * 2 ^ t / b\<close> is at least \<open>2 ^ 52\<close>, stopping at the exponent of
  the subnormal numbers.
\<close>

function shift_right :: "nat \<Rightarrow> nat \<Rightarrow> nat \<Rightarrow> nat" where
  "shift_right a b s =
     (if 0 < b \<and> b * 2 ^ (53 + s) \<le> a then shift_right a b (s + 1) else s)"
  by pat_completeness auto
termination
proof (relation "measure (\<lambda>(a, b, s). a + 1 - b * 2 ^ (53 + s))")
  show "wf (measure (\<lambda>(a :: nat, b :: nat, s :: nat). a + 1 - b * 2 ^ (53 + s)))"
    by simp
next
  fix a b s :: nat
  assume h: "0 < b \<and> b * 2 ^ (53 + s) \<le> a"
  define k where "k = b * 2 ^ (53 + s)"
  have k: "0 < k" "k \<le> a"
    using h by (simp_all add: k_def)
  have e: "53 + (s + 1) = Suc (53 + s)"
    by simp
  have "b * 2 ^ (53 + (s + 1)) = 2 * k"
    by (simp only: e k_def power_Suc mult.left_commute)
  moreover have "a + 1 - 2 * k < a + 1 - k"
    using k by arith
  ultimately have "a + 1 - b * 2 ^ (53 + (s + 1)) < a + 1 - b * 2 ^ (53 + s)"
    by (simp only: k_def)
  then show "((a, b, s + 1), (a, b, s))
      \<in> measure (\<lambda>(a, b, s). a + 1 - b * 2 ^ (53 + s))"
    by (simp only: in_measure prod.case)
qed

function shift_left :: "nat \<Rightarrow> nat \<Rightarrow> nat \<Rightarrow> nat" where
  "shift_left a b t =
     (if 0 < a \<and> t < 1074 \<and> a * 2 ^ t < b * 2 ^ 52 then shift_left a b (t + 1) else t)"
  by pat_completeness auto
termination
  by (relation "measure (\<lambda>(a, b, t). 1074 - t)") auto

text \<open>
  Round to nearest, ties to even, of the fraction \<open>a / b\<close> with sign \<open>sg\<close> to binary64:
  53 significant bits, the smallest unit \<open>2 ^ -1074\<close>, infinity from \<open>2 ^ 1024\<close> on.
\<close>

definition binary64_round :: "bool \<Rightarrow> nat \<Rightarrow> nat \<Rightarrow> float64" where
  "binary64_round sg a b =
     (if b * 2 ^ 53 \<le> a then
        (let s = shift_right a b 0; m = round_half_even a (b * 2 ^ s) in
         if 2 ^ 1024 \<le> m * 2 ^ s then Infinite sg else Finite sg (m * 2 ^ s) 1)
      else
        (let t = shift_left a b 0 in Finite sg (round_half_even (a * 2 ^ t) b) (2 ^ t)))"

text \<open>The conversions \<open>float64(size)\<close> of a \<open>uint64\<close> and \<open>float64(div)\<close> of an \<open>int64\<close>.\<close>

definition float64_of_uint64 :: "64 word \<Rightarrow> float64" where
  "float64_of_uint64 w = binary64_round False (unat w) 1"

definition float64_of_int64 :: "64 word \<Rightarrow> float64" where
  "float64_of_int64 w = binary64_round (sint w < 0) (nat \<bar>sint w\<bar>) 1"

text \<open>
  The value of \<open>float64(a)\<close> for a natural number \<open>a\<close> below \<open>2 ^ 64\<close>
  (\<open>binary64_round_uint64\<close>): \<open>a\<close> itself below \<open>2 ^ 53\<close>, else \<open>a\<close> rounded to 53
  significant bits.
\<close>

definition nearest_float :: "nat \<Rightarrow> nat" where
  "nearest_float a =
     (if a < 2 ^ 53 then a
      else (let s = shift_right a 1 0 in round_half_even a (2 ^ s) * 2 ^ s))"

text \<open>The quotient \<open>x / y\<close> of two \<open>float64\<close> values.\<close>

fun float64_div :: "float64 \<Rightarrow> float64 \<Rightarrow> float64" where
  "float64_div NaN y = NaN"
| "float64_div x NaN = NaN"
| "float64_div (Infinite s) (Infinite t) = NaN"
| "float64_div (Infinite s) (Finite t c d) = Infinite (s \<noteq> t)"
| "float64_div (Finite s a b) (Infinite t) = Finite (s \<noteq> t) 0 1"
| "float64_div (Finite s a b) (Finite t c d) =
     (if c = 0 then (if a = 0 then NaN else Infinite (s \<noteq> t))
      else binary64_round (s \<noteq> t) (a * d) (b * c))"

text \<open>
  Negation, sum and difference. A sum is the exact sum, rounded; an exact zero is \<open>+0\<close>
  unless both terms are \<open>-0\<close>. The difference \<open>x - y\<close> is \<open>x + (-y)\<close>.
\<close>

fun float64_neg :: "float64 \<Rightarrow> float64" where
  "float64_neg NaN = NaN"
| "float64_neg (Infinite s) = Infinite (\<not> s)"
| "float64_neg (Finite s a b) = Finite (\<not> s) a b"

fun float64_add :: "float64 \<Rightarrow> float64 \<Rightarrow> float64" where
  "float64_add NaN y = NaN"
| "float64_add x NaN = NaN"
| "float64_add (Infinite s) (Infinite t) = (if s = t then Infinite s else NaN)"
| "float64_add (Infinite s) (Finite t c d) = Infinite s"
| "float64_add (Finite s a b) (Infinite t) = Infinite t"
| "float64_add (Finite s a b) (Finite t c d) =
     (if s = t then binary64_round s (a * d + c * b) (b * d)
      else if a * d = c * b then Finite False 0 1
      else if c * b < a * d then binary64_round s (a * d - c * b) (b * d)
      else binary64_round t (c * b - a * d) (b * d))"

definition float64_sub :: "float64 \<Rightarrow> float64 \<Rightarrow> float64" where
  "float64_sub x y = float64_add x (float64_neg y)"

text \<open>The product \<open>x * y\<close>.\<close>

fun float64_mul :: "float64 \<Rightarrow> float64 \<Rightarrow> float64" where
  "float64_mul NaN y = NaN"
| "float64_mul x NaN = NaN"
| "float64_mul (Infinite s) (Infinite t) = Infinite (s \<noteq> t)"
| "float64_mul (Infinite s) (Finite t c d) = (if c = 0 then NaN else Infinite (s \<noteq> t))"
| "float64_mul (Finite s a b) (Infinite t) = (if a = 0 then NaN else Infinite (s \<noteq> t))"
| "float64_mul (Finite s a b) (Finite t c d) = binary64_round (s \<noteq> t) (a * c) (b * d)"

text \<open>
  The comparison \<open>x == y\<close> of Go: equal values, where \<open>+0\<close> equals \<open>-0\<close> and NaN
  equals nothing.
\<close>

fun float64_eq :: "float64 \<Rightarrow> float64 \<Rightarrow> bool" where
  "float64_eq (Finite s a b) (Finite t c d) = (a * d = c * b \<and> (s = t \<or> a = 0))"
| "float64_eq (Infinite s) (Infinite t) = (s = t)"
| "float64_eq x y = False"

text \<open>The constant \<open>100\<close> as a \<open>float64\<close>, and the numbers from 0 to 100.\<close>

definition hundred :: float64 where
  "hundred = Finite False 100 1"


text \<open>\<open>%d\<close> of an unsigned integer.\<close>

function decimal :: "nat \<Rightarrow> string" where
  "decimal n =
     (if n < 10 then [''0123456789'' ! n]
      else decimal (n div 10) @ [''0123456789'' ! (n mod 10)])"
  by pat_completeness auto
termination
  by (relation "measure id") auto

text \<open>
  \<open>%.1f\<close> of a \<open>float64\<close>: the exact value rounded to one digit after the point, ties
  to even, as \<open>strconv\<close> does for a given precision.
\<close>

fun sprintf_1f :: "float64 \<Rightarrow> string" where
  "sprintf_1f NaN = ''NaN''"
| "sprintf_1f (Infinite s) = (if s then ''-Inf'' else ''+Inf'')"
| "sprintf_1f (Finite s a b) =
     (let r = round_half_even (10 * a) b in
      (if s then ''-'' else '''') @ decimal (r div 10) @ ''.'' @ decimal (r mod 10))"

subsection \<open>Data model\<close>

text \<open>
  \<open>disk.PartitionStat\<close> and \<open>disk.UsageStat\<close> are gopsutil's structs, with the fields
  the collector reads. \<open>DiskInfo\<close> is the repository's struct.
\<close>

record PartitionStat =
  Device :: string
  Mountpoint :: string
  Fstype :: string

record UsageStat =
  Total :: "64 word"
  Free :: "64 word"
  Used :: "64 word"
  UsedPercent :: float64

record DiskInfo =
  Device :: string
  Size :: "64 word"
  Used :: "64 word"
  Free :: "64 word"
  Type :: string
  HumanSize :: string
  HumanUsed :: string
  HumanFree :: string
  UsedPercent :: float64
  FreePercent :: float64

text \<open>An \<open>error\<close> value of Go, by the text that \<open>%v\<close> prints for it.\<close>

datatype os_error = OsError string

text \<open>The run-time panics the code could raise.\<close>

datatype panic = IndexOutOfRange nat

text \<open>
  What a call of the collector does besides returning: the lines it gives to
  \<open>log.Printf\<close> (without the time stamp) and the paths it passes to \<open>disk.Usage\<close>.
\<close>

datatype event = Log string | UsageQuery string

text \<open>
  The operating system as the collector sees it during one call:
  \<open>PartitionsWithContext all\<close> and \<open>Usage path\<close> return a value or an error,
  \<open>Join\<close> is \<open>filepath.Join\<close> on two elements. A call sees one state of the file
  systems: the same path has the same answer throughout.
\<close>

record os =
  PartitionsWithContext :: "bool \<Rightarrow> os_error + PartitionStat list"
  Usage :: "string \<Rightarrow> os_error + UsageStat"
  Join :: "string \<Rightarrow> string \<Rightarrow> string"

subsection \<open>humanReadableSize\<close>

text \<open>
  The loop \<open>for n := size / unit; n >= unit; n /= unit { div *= unit; exp++ }\<close> with
  \<open>n\<close> a \<open>uint64\<close> and \<open>div\<close> an \<open>int64\<close>, whose multiplication wraps.
\<close>

function humanReadableSize_loop :: "64 word \<Rightarrow> 64 word \<Rightarrow> nat \<Rightarrow> 64 word \<times> nat" where
  "humanReadableSize_loop n dv ex =
     (if 1024 \<le> n then humanReadableSize_loop (n div 1024) (dv * 1024) (ex + 1)
      else (dv, ex))"
  by pat_completeness auto
termination
proof (relation "measure (\<lambda>(n, dv, ex). unat n)")
  show "wf (measure (\<lambda>(n :: 64 word, dv :: 64 word, ex :: nat). unat n))"
    by simp
next
  fix n dv :: "64 word" and ex :: nat
  assume "1024 \<le> n"
  then have "1024 \<le> unat n"
    by (simp add: word_le_nat_alt)
  then have "unat n div 1024 < unat n"
    by simp
  then show "((n div 1024, dv * 1024, ex + 1), (n, dv, ex))
      \<in> measure (\<lambda>(n, dv, ex). unat n)"
    by (simp add: unat_div)
qed

declare shift_right.simps [simp del] shift_left.simps [simp del] decimal.simps [simp del]
  humanReadableSize_loop.simps [simp del]

text \<open>
  \<open>"KMGTPE"[exp]\<close> panics when \<open>exp\<close> is not below 6; the arguments of
  \<open>Sprintf\<close> have no other way to fail.
\<close>

definition humanReadableSize :: "64 word \<Rightarrow> panic + string" where
  "humanReadableSize sz =
     (if sz < 1024 then Inr (decimal (unat sz) @ '' B'')
      else
        (let (dv, ex) = humanReadableSize_loop (sz div 1024) 1024 0 in
         if ex < length ''KMGTPE''
         then Inr (sprintf_1f (float64_div (float64_of_uint64 sz) (float64_of_int64 dv))
                   @ '' '' @ [''KMGTPE'' ! ex] @ ''B'')
         else Inl (IndexOutOfRange ex)))"

subsection \<open>contains\<close>

fun contains :: "string list \<Rightarrow> string \<Rightarrow> bool" where
  "contains [] item = False"
| "contains (s # ss) item = (if s = item then True else contains ss item)"

subsection \<open>gatherDiskInfo\<close>

fun error_text :: "os_error \<Rightarrow> string" where
  "error_text (OsError msg) = msg"

text \<open>
  The body of \<open>for _, p := range partitions\<close>, on the partitions still to visit. The
  state is the slice \<open>diskInfos\<close> built so far and the events so far; every
  \<open>continue\<close> goes on with the rest of the list, and a panic of
  \<open>humanReadableSize\<close> would end the call.
\<close>

fun gatherDiskInfo_loop ::
  "os \<Rightarrow> string list \<Rightarrow> string \<Rightarrow> PartitionStat list \<Rightarrow>
   DiskInfo list \<times> event list \<Rightarrow> panic + DiskInfo list \<times> event list" where
  "gatherDiskInfo_loop os ignoreTypes hostProc [] st = Inr st"
| "gatherDiskInfo_loop os ignoreTypes hostProc (p # ps) (diskInfos, tr) =
     (if Mountpoint p = '''' then
        gatherDiskInfo_loop os ignoreTypes hostProc ps
          (diskInfos,
           tr @ [Log (''Partition '' @ PartitionStat.Device p @ '' has no mountpoint, skipping'')])
      else
        (let path = Join os hostProc (Mountpoint p); tr1 = tr @ [UsageQuery path] in
         case Usage os path of
           Inl err \<Rightarrow>
             gatherDiskInfo_loop os ignoreTypes hostProc ps
               (diskInfos,
                tr1 @ [Log (''Error getting usage for '' @ Mountpoint p @ '': '' @ error_text err)])
         | Inr usage \<Rightarrow>
             if Total usage = 0 then
               gatherDiskInfo_loop os ignoreTypes hostProc ps
                 (diskInfos,
                  tr1 @ [Log (''Partition '' @ Mountpoint p @ '' has total size 0, skipping'')])
             else if contains ignoreTypes (Fstype p) then
               gatherDiskInfo_loop os ignoreTypes hostProc ps
                 (diskInfos,
                  tr1 @ [Log (''Partition '' @ Mountpoint p @ '' with type '' @ Fstype p
                              @ '' is in ignore list, skipping'')])
             else
               (let usedPercent = UsageStat.UsedPercent usage;
                    freePercent = float64_sub hundred (UsageStat.UsedPercent usage) in
                case humanReadableSize (Total usage) of
                  Inl pn \<Rightarrow> Inl pn
                | Inr humanSize \<Rightarrow>
                    (case humanReadableSize (UsageStat.Used usage) of
                       Inl pn \<Rightarrow> Inl pn
                     | Inr humanUsed \<Rightarrow>
                         (case humanReadableSize (UsageStat.Free usage) of
                            Inl pn \<Rightarrow> Inl pn
                          | Inr humanFree \<Rightarrow>
                              gatherDiskInfo_loop os ignoreTypes hostProc ps
                                (diskInfos @
                                 [\<lparr>Device = PartitionStat.Device p,
                                   Size = Total usage,
                                   Used = UsageStat.Used usage,
                                   Free = UsageStat.Free usage,
                                   Type = Fstype p,
                                   HumanSize = humanSize,
                                   HumanUsed = humanUsed,
                                   HumanFree = humanFree,
                                   UsedPercent = usedPercent,
                                   FreePercent = freePercent\<rparr>],
                                 tr1))))))"

text \<open>
  \<open>gatherDiskInfo\<close> returns the records (\<open>nil\<close> is the empty list) with the events
  of the call, or the panic that ended it.
\<close>

definition gatherDiskInfo ::
  "os \<Rightarrow> string list \<Rightarrow> string \<Rightarrow> panic + DiskInfo list \<times> event list" where
  "gatherDiskInfo os ignoreTypes hostProc =
     (case PartitionsWithContext os True of
        Inl err \<Rightarrow> Inr ([], [Log (''Error retrieving partitions: '' @ error_text err)])
      | Inr partitions \<Rightarrow> gatherDiskInfo_loop os ignoreTypes hostProc partitions ([], []))"

subsection \<open>Notions used to state the results\<close>

text \<open>The sample that \<open>disk.Usage\<close> returns for the mount point of a partition.\<close>

definition usage_of :: "os \<Rightarrow> string \<Rightarrow> PartitionStat \<Rightarrow> os_error + UsageStat" where
  "usage_of os hostProc p = Usage os (Join os hostProc (Mountpoint p))"

text \<open>The string of \<open>humanReadableSize\<close>; it always returns one (\<open>humanReadableSize_human\<close>).\<close>

definition human :: "64 word \<Rightarrow> string" where
  "human sz = (case humanReadableSize sz of Inr s \<Rightarrow> s | Inl pn \<Rightarrow> [])"

text \<open>The \<open>DiskInfo\<close> literal of the loop body, for a partition and its sample.\<close>

definition diskInfo_of :: "PartitionStat \<Rightarrow> UsageStat \<Rightarrow> DiskInfo" where
  "diskInfo_of p usage =
     \<lparr>Device = PartitionStat.Device p,
      Size = Total usage,
      Used = UsageStat.Used usage,
      Free = UsageStat.Free usage,
      Type = Fstype p,
      HumanSize = human (Total usage),
      HumanUsed = human (UsageStat.Used usage),
      HumanFree = human (UsageStat.Free usage),
      UsedPercent = UsageStat.UsedPercent usage,
      FreePercent = float64_sub hundred (UsageStat.UsedPercent usage)\<rparr>"

text \<open>
  What one round of the loop appends to \<open>diskInfos\<close> and to the events; the lemma
  \<open>gatherDiskInfo_loop_Cons\<close> proves that the loop does exactly this.
\<close>

definition emitted ::
  "os \<Rightarrow> string list \<Rightarrow> string \<Rightarrow> PartitionStat \<Rightarrow> DiskInfo list" where
  "emitted os ignoreTypes hostProc p =
     (if Mountpoint p = '''' then []
      else case usage_of os hostProc p of
        Inl err \<Rightarrow> []
      | Inr usage \<Rightarrow>
          if Total usage = 0 then []
          else if contains ignoreTypes (Fstype p) then []
          else [diskInfo_of p usage])"

definition events_of ::
  "os \<Rightarrow> string list \<Rightarrow> string \<Rightarrow> PartitionStat \<Rightarrow> event list" where
  "events_of os ignoreTypes hostProc p =
     (if Mountpoint p = '''' then
        [Log (''Partition '' @ PartitionStat.Device p @ '' has no mountpoint, skipping'')]
      else UsageQuery (Join os hostProc (Mountpoint p)) #
        (case usage_of os hostProc p of
           Inl err \<Rightarrow>
             [Log (''Error getting usage for '' @ Mountpoint p @ '': '' @ error_text err)]
         | Inr usage \<Rightarrow>
             if Total usage = 0 then
               [Log (''Partition '' @ Mountpoint p @ '' has total size 0, skipping'')]
             else if contains ignoreTypes (Fstype p) then
               [Log (''Partition '' @ Mountpoint p @ '' with type '' @ Fstype p
                     @ '' is in ignore list, skipping'')]
             else []))"

text \<open>
  A valid partition has a mount point, a usage query that succeeds and a total size that
  is not zero; \<open>valid_sample\<close> is its sample.
\<close>

definition valid_sample :: "os \<Rightarrow> string \<Rightarrow> PartitionStat \<Rightarrow> UsageStat option" where
  "valid_sample os hostProc p =
     (if Mountpoint p = '''' then None
      else case usage_of os hostProc p of
        Inl err \<Rightarrow> None
      | Inr usage \<Rightarrow> if Total usage = 0 then None else Some usage)"

definition valid :: "os \<Rightarrow> string \<Rightarrow> PartitionStat \<Rightarrow> bool" where
  "valid os hostProc p = (valid_sample os hostProc p \<noteq> None)"

text \<open>
  The fraction \<open>a / b\<close> with one digit after the point, rounded to nearest, ties to
  even.
\<close>

definition one_decimal :: "nat \<Rightarrow> nat \<Rightarrow> string" where
  "one_decimal a b =
     (let r = round_half_even (10 * a) b in decimal (r div 10) @ ''.'' @ decimal (r mod 10))"

text \<open>The paths passed to \<open>disk.Usage\<close> during a call, in order.\<close>

fun usage_queries :: "event list \<Rightarrow> string list" where
  "usage_queries [] = []"
| "usage_queries (UsageQuery path # es) = path # usage_queries es"
| "usage_queries (Log msg # es) = usage_queries es"

text \<open>
  The specification's formula for the used percentage, \<open>(used / total) * 100\<close> as a
  \<open>float64\<close> value from the used and total bytes.
\<close>

definition usedPercent_spec :: "64 word \<Rightarrow> 64 word \<Rightarrow> float64" where
  "usedPercent_spec used tot =
     float64_mul (float64_div (float64_of_uint64 used) (float64_of_uint64 tot)) hundred"

text \<open>
  gopsutil is not part of the repository. Its \<open>disk.Usage\<close> fills the \<open>UsedPercent\<close>
  of a sample from the used and the free bytes of the sample: \<open>0\<close> if \<open>used + free\<close> is
  0, else \<open>float64(used) / float64(used + free) * 100\<close>, the sum taken in \<open>uint64\<close>. A
  sample of the library is one whose used and free bytes add up without wrapping and
  whose \<open>UsedPercent\<close> is this value; \<open>gopsutil_samples\<close> says so of every sample that
  the usage queries of a call on the partitions \<open>ps\<close> can return.
\<close>

definition disk_Usage_UsedPercent :: "64 word \<Rightarrow> 64 word \<Rightarrow> float64" where
  "disk_Usage_UsedPercent used free =
     (if used + free = 0 then Finite False 0 1
      else float64_mul
             (float64_div (float64_of_uint64 used) (float64_of_uint64 (used + free))) hundred)"



subsection \<open>A fixture\<close>

text \<open>
  Partitions and samples of a small machine; every sample is one of the library. The
  root file system keeps blocks in reserve: of 4096 bytes, 1024 are used and 1024 are free
  for users, and the used percentage reported with the sample is that of the used and
  free bytes, 50. The host prefix of the fixture is empty, where \<open>filepath.Join\<close>
  returns the mount point.
\<close>

definition p_root :: PartitionStat where
  "p_root = \<lparr>PartitionStat.Device = ''/dev/sda1'', Mountpoint = ''/'', Fstype = ''ext4''\<rparr>"

definition p_data :: PartitionStat where
  "p_data = \<lparr>PartitionStat.Device = ''/dev/sdb1'', Mountpoint = ''/data'', Fstype = ''xfs''\<rparr>"

definition p_cdrom :: PartitionStat where
  "p_cdrom =
     \<lparr>PartitionStat.Device = ''/dev/sr0'', Mountpoint = ''/media/cdrom'', Fstype = ''cdrom''\<rparr>"

definition p_images :: PartitionStat where
  "p_images =
     \<lparr>PartitionStat.Device = ''/dev/mapper/cdrom_images'', Mountpoint = ''/srv/images'',
      Fstype = ''ext4''\<rparr>"

definition p_proc :: PartitionStat where
  "p_proc = \<lparr>PartitionStat.Device = ''proc'', Mountpoint = ''/proc'', Fstype = ''proc''\<rparr>"

definition p_nomount :: PartitionStat where
  "p_nomount = \<lparr>PartitionStat.Device = ''/dev/sdc1'', Mountpoint = '''', Fstype = ''ext4''\<rparr>"

definition p_gone :: PartitionStat where
  "p_gone =
     \<lparr>PartitionStat.Device = ''server:/export'', Mountpoint = ''/mnt/gone'', Fstype = ''nfs''\<rparr>"

definition u_root :: UsageStat where
  "u_root =
     \<lparr>Total = 4096, Free = 1024, Used = 1024, UsedPercent = disk_Usage_UsedPercent 1024 1024\<rparr>"

definition u_data :: UsageStat where
  "u_data =
     \<lparr>Total = 2048, Free = 1536, Used = 512, UsedPercent = disk_Usage_UsedPercent 512 1536\<rparr>"

definition u_cdrom :: UsageStat where
  "u_cdrom =
     \<lparr>Total = 2048, Free = 0, Used = 2048, UsedPercent = disk_Usage_UsedPercent 2048 0\<rparr>"

definition u_proc :: UsageStat where
  "u_proc = \<lparr>Total = 0, Free = 0, Used = 0, UsedPercent = disk_Usage_UsedPercent 0 0\<rparr>"

definition fix_Usage :: "string \<Rightarrow> os_error + UsageStat" where
  "fix_Usage path =
     (if path = ''/'' then Inr u_root
      else if path = ''/data'' then Inr u_data
      else if path = ''/srv/images'' then Inr u_data
      else if path = ''/media/cdrom'' then Inr u_cdrom
      else if path = ''/proc'' then Inr u_proc
      else Inl (OsError ''no such file or directory''))"

definition fix_os :: "PartitionStat list \<Rightarrow> os" where
  "fix_os ps =
     \<lparr>PartitionsWithContext = (\<lambda>all. Inr ps),
      Usage = fix_Usage,
      Join = (\<lambda>hostProc mountpoint. hostProc @ mountpoint)\<rparr>"

definition fix_os_failing :: os where
  "fix_os_failing =
     \<lparr>PartitionsWithContext = (\<lambda>all. Inl (OsError ''permission denied'')),
      Usage = fix_Usage,
      Join = (\<lambda>hostProc mountpoint. hostProc @ mountpoint)\<rparr>"

lemmas fixture_defs = fix_os_def fix_os_failing_def fix_Usage_def p_root_def p_data_def
  p_cdrom_def p_images_def p_proc_def p_nomount_def p_gone_def u_root_def u_data_def
  u_cdrom_def u_proc_def

lemmas humanReadableSize_eval = humanReadableSize_def humanReadableSize_loop.simps
  float64_of_uint64_def float64_of_int64_def binary64_round_def shift_left.simps
  shift_right.simps decimal.simps round_half_even_def Let_def word_le_nat_alt word_less_nat_alt

lemmas float64_eval = binary64_round_def shift_left.simps shift_right.simps round_half_even_def
  Let_def float64_sub_def hundred_def float64_of_uint64_def disk_Usage_UsedPercent_def

section \<open>Rounding\<close>

lemma round_half_even_cases:
  assumes "0 < b"
  obtains q r where "n = q * b + r" "r < b"
    "round_half_even n b =
       (if 2 * r < b then q else if b < 2 * r then q + 1 else if even q then q else q + 1)"
proof
  show "n = n div b * b + n mod b"
    by simp
  show "n mod b < b"
    using assms by simp
  show "round_half_even n b =
      (if 2 * (n mod b) < b then n div b else if b < 2 * (n mod b) then n div b + 1
       else if even (n div b) then n div b else n div b + 1)"
    by (simp add: round_half_even_def Let_def)
qed



lemma round_half_even_le:
  assumes "0 < b" and "n \<le> c * b"
  shows "round_half_even n b \<le> c"
proof -
  from assms(1) obtain q r where h: "n = q * b + r" "r < b"
    "round_half_even n b =
       (if 2 * r < b then q else if b < 2 * r then q + 1 else if even q then q else q + 1)"
    by (rule round_half_even_cases)
  have "q * b \<le> c * b"
    using assms(2) h(1) by linarith
  then have qc: "q \<le> c"
    using assms(1) by (simp only: mult_le_cancel2)
  have "q + 1 \<le> c" if "0 < r"
  proof (rule ccontr)
    assume "\<not> q + 1 \<le> c"
    with qc have "c = q" by simp
    with assms(2) h(1) that show False by simp
  qed
  with qc assms(1) show ?thesis
    unfolding h(3) by auto
qed

lemma round_half_even_1: "round_half_even n 1 = n"
  by (simp add: round_half_even_def)

lemma round_half_even_exact: "0 < b \<Longrightarrow> round_half_even (q * b) b = q"
  by (simp add: round_half_even_def)

text \<open>The rounded quotient is that of the fraction, whatever its numerator and denominator.\<close>

lemma round_half_even_scale:
  assumes "0 < k"
  shows "round_half_even (k * n) (k * b) = round_half_even n b"
proof -
  have m: "(k * n) mod (k * b) = k * (n mod b)"
    by (rule mult_mod_right [symmetric])
  have d: "(k * n) div (k * b) = n div b"
    using assms by simp
  have c1: "(2 * (k * (n mod b)) < k * b) = (2 * (n mod b) < b)"
    using assms by (simp add: mult.left_commute [of 2 k])
  have c2: "(k * b < 2 * (k * (n mod b))) = (b < 2 * (n mod b))"
    using assms by (simp add: mult.left_commute [of 2 k])
  show ?thesis
    by (simp only: round_half_even_def Let_def m d c1 c2)
qed

text \<open>Where \<open>shift_left\<close> stops: at the unit of the subnormal numbers, or with 53 bits.\<close>

lemma shift_left_stop:
  "a = 0 \<or> 1074 \<le> shift_left a b t \<or> b * 2 ^ 52 \<le> a * 2 ^ shift_left a b t"
proof (induction a b t rule: shift_left.induct)
  case (1 a b t)
  show ?case
  proof (cases "0 < a \<and> t < 1074 \<and> a * 2 ^ t < b * 2 ^ 52")
    case True
    then have "shift_left a b t = shift_left a b (t + 1)"
      by (subst shift_left.simps) (simp only: True simp_thms if_True)
    with 1 True show ?thesis
      by simp
  next
    case False
    have "shift_left a b t = t"
      by (subst shift_left.simps) (simp only: False if_False)
    with False show ?thesis
      by auto
  qed
qed

text \<open>An integer below \<open>2 ^ 53\<close> converts to itself.\<close>

lemma binary64_round_integer:
  assumes "a < 2 ^ 53"
  shows "binary64_round sg a 1 = Finite sg (a * 2 ^ shift_left a 1 0) (2 ^ shift_left a 1 0)"
proof -
  have "\<not> 1 * 2 ^ 53 \<le> a"
    using assms by simp
  then show ?thesis
    by (simp only: binary64_round_def if_False Let_def round_half_even_1)
qed

text \<open>
  The quotient of an integer below \<open>2 ^ 53\<close> by a power of two is exact, and \<open>%.1f\<close>
  prints the quotient of the integers, rounded once.
\<close>

lemma sprintf_1f_quotient:
  assumes "0 < a" and "a < 2 ^ 53" and "k < 53"
  shows "sprintf_1f (float64_div (binary64_round False a 1) (binary64_round False (2 ^ k) 1)) =
    (let r = round_half_even (10 * a) (2 ^ k) in decimal (r div 10) @ ''.'' @ decimal (r mod 10))"
proof -
  define t where "t = shift_left a 1 0"
  define u where "u = shift_left (2 ^ k) 1 0"
  define K :: nat where "K = 2 ^ t * 2 ^ u"
  have K: "0 < K"
    by (simp add: K_def)
  have c53: "(2::nat) ^ k < 2 ^ 53"
    using assms(3) by (intro power_strict_increasing) simp_all
  have fa: "binary64_round False a 1 = Finite False (a * 2 ^ t) (2 ^ t)"
    unfolding t_def using assms(2) by (rule binary64_round_integer)
  have fc: "binary64_round False (2 ^ k) 1 = Finite False (2 ^ k * 2 ^ u) (2 ^ u)"
    unfolding u_def using c53 by (rule binary64_round_integer)
  have q: "float64_div (Finite False (a * 2 ^ t) (2 ^ t)) (Finite False (2 ^ k * 2 ^ u) (2 ^ u))
      = binary64_round False (K * a) (K * 2 ^ k)"
    by (simp add: K_def mult_ac)
  define t' where "t' = shift_left (K * a) (K * 2 ^ k) 0"
  have "K * a < K * 2 ^ k * 2 ^ 53"
  proof -
    have "(2::nat) ^ 53 \<le> 2 ^ k * 2 ^ 53"
      by simp
    with assms(2) have "a < 2 ^ k * 2 ^ 53"
      by (rule less_le_trans)
    with K show ?thesis
      by (simp add: mult.assoc)
  qed
  then have br: "\<not> K * 2 ^ k * 2 ^ 53 \<le> K * a"
    by simp
  have r: "binary64_round False (K * a) (K * 2 ^ k)
      = Finite False (round_half_even (K * a * 2 ^ t') (K * 2 ^ k)) (2 ^ t')"
    by (simp only: binary64_round_def br if_False Let_def t'_def)
  have kt: "k \<le> t'"
  proof -
    from shift_left_stop [of "K * a" "K * 2 ^ k" 0]
    consider "1074 \<le> t'" | "K * 2 ^ k * 2 ^ 52 \<le> K * a * 2 ^ t'"
      using K assms(1) by (auto simp: t'_def)
    then show ?thesis
    proof cases
      case 1
      with assms(3) show ?thesis by simp
    next
      case 2
      then have "K * (2 ^ k * 2 ^ 52) \<le> K * (a * 2 ^ t')"
        by (simp only: mult.assoc)
      with K have "2 ^ k * 2 ^ 52 \<le> a * 2 ^ t'"
        by simp
      also have "\<dots> < 2 ^ 53 * 2 ^ t'"
        using assms(2) by simp
      finally have "(2::nat) ^ (k + 52) < 2 ^ (53 + t')"
        by (simp only: power_add)
      then have "k + 52 < 53 + t'"
        by simp
      then show ?thesis
        by simp
    qed
  qed
  then obtain j where j: "t' = k + j"
    using le_Suc_ex by blast
  have Kk: "0 < K * 2 ^ k"
    using K by simp
  have "K * a * 2 ^ t' = (a * 2 ^ j) * (K * 2 ^ k)"
    by (simp add: j power_add mult_ac)
  then have m: "round_half_even (K * a * 2 ^ t') (K * 2 ^ k) = a * 2 ^ j"
    by (simp only: round_half_even_exact [OF Kk])
  have "round_half_even (10 * (a * 2 ^ j)) (2 ^ t')
      = round_half_even (2 ^ j * (10 * a)) (2 ^ j * 2 ^ k)"
    by (simp add: j power_add mult_ac)
  also have "\<dots> = round_half_even (10 * a) (2 ^ k)"
    by (rule round_half_even_scale) simp
  finally have s: "round_half_even (10 * (a * 2 ^ j)) (2 ^ t') = round_half_even (10 * a) (2 ^ k)" .
  show ?thesis
    by (simp only: fa fc q r m sprintf_1f.simps s if_False append_Nil)
qed









subsection \<open>Monotonicity, and the percentage of the usage query\<close>

lemma round_half_even_ge:
  assumes "0 < b" and "c * b \<le> n"
  shows "c \<le> round_half_even n b"
proof -
  from assms(1) obtain q r where h: "n = q * b + r" "r < b"
    "round_half_even n b =
       (if 2 * r < b then q else if b < 2 * r then q + 1 else if even q then q else q + 1)"
    by (rule round_half_even_cases)
  have "c \<le> q"
  proof (rule ccontr)
    assume "\<not> c \<le> q"
    then have "q + 1 \<le> c" by simp
    then have "(q + 1) * b \<le> c * b" by (rule mult_le_mono1)
    with assms(2) h(1,2) show False by simp
  qed
  then show ?thesis
    unfolding h(3) by auto
qed

lemma round_half_even_mono:
  assumes "0 < b" and "n \<le> n'"
  shows "round_half_even n b \<le> round_half_even n' b"
proof -
  from assms(1) obtain q r where h: "n = q * b + r" "r < b"
    "round_half_even n b =
       (if 2 * r < b then q else if b < 2 * r then q + 1 else if even q then q else q + 1)"
    by (rule round_half_even_cases)
  from assms(1) obtain q' r' where h': "n' = q' * b + r'" "r' < b"
    "round_half_even n' b =
       (if 2 * r' < b then q' else if b < 2 * r' then q' + 1 else if even q' then q' else q' + 1)"
    by (rule round_half_even_cases)
  have qq: "q \<le> q'"
  proof (rule ccontr)
    assume "\<not> q \<le> q'"
    then have "q' + 1 \<le> q" by simp
    then have "(q' + 1) * b \<le> q * b" by (rule mult_le_mono1)
    with assms(2) h(1) h'(1,2) show False by simp
  qed
  show ?thesis
  proof (cases "q = q'")
    case True
    with assms(2) h(1) h'(1) have "r \<le> r'"
      by simp
    with True show ?thesis
      unfolding h(3) h'(3) by auto
  next
    case False
    with qq have "q + 1 \<le> q'"
      by simp
    then show ?thesis
      unfolding h(3) h'(3) by auto
  qed
qed

text \<open>Where \<open>shift_right\<close> stops.\<close>

lemma shift_right_stop:
  "(b = 0 \<or> a < b * 2 ^ (53 + shift_right a b s))
   \<and> (shift_right a b s = s \<or> b * 2 ^ (52 + shift_right a b s) \<le> a)"
proof (induction a b s rule: shift_right.induct)
  case (1 a b s)
  show ?case
  proof (cases "0 < b \<and> b * 2 ^ (53 + s) \<le> a")
    case True
    then have e: "shift_right a b s = shift_right a b (s + 1)"
      by (subst shift_right.simps) (simp only: True simp_thms if_True)
    from 1 True have ih: "(b = 0 \<or> a < b * 2 ^ (53 + shift_right a b (s + 1)))
      \<and> (shift_right a b (s + 1) = s + 1 \<or> b * 2 ^ (52 + shift_right a b (s + 1)) \<le> a)"
      by simp
    have "b * 2 ^ (52 + shift_right a b (s + 1)) \<le> a"
    proof (cases "shift_right a b (s + 1) = s + 1")
      case True
      have "52 + (s + 1) = 53 + s" by simp
      with \<open>0 < b \<and> b * 2 ^ (53 + s) \<le> a\<close> True show ?thesis
        by simp
    next
      case False
      with ih show ?thesis by simp
    qed
    with ih show ?thesis
      by (simp only: e) simp
  next
    case False
    have "shift_right a b s = s"
      by (subst shift_right.simps) (simp only: False if_False)
    with False show ?thesis
      by auto
  qed
qed

text \<open>
  The integer 53-bit rounding: where the significand lies, and that the rounding is
  monotone.
\<close>

lemma nearest_float_big:
  assumes "2 ^ 53 \<le> a"
  obtains s where "shift_right a 1 0 = s" "2 ^ (52 + s) \<le> a" "a < 2 ^ (53 + s)"
    "nearest_float a = round_half_even a (2 ^ s) * 2 ^ s"
    "2 ^ (52 + s) \<le> nearest_float a" "nearest_float a \<le> 2 ^ (53 + s)"
proof -
  define s where "s = shift_right a 1 0"
  from shift_right_stop [of 1 a 0] have st: "a < 2 ^ (53 + s)" "s = 0 \<or> 2 ^ (52 + s) \<le> a"
    by (simp_all add: s_def)
  from st(1) assms have "s \<noteq> 0"
    by (cases "s = 0") simp_all
  with st(2) have lo: "2 ^ (52 + s) \<le> a"
    by simp
  have nf: "nearest_float a = round_half_even a (2 ^ s) * 2 ^ s"
    using assms by (simp add: nearest_float_def s_def Let_def)
  have pos: "0 < (2::nat) ^ s"
    by simp
  have "2 ^ 52 * 2 ^ s \<le> a"
    using lo by (simp only: power_add)
  with pos have "2 ^ 52 \<le> round_half_even a (2 ^ s)"
    by (rule round_half_even_ge)
  then have "2 ^ 52 * 2 ^ s \<le> round_half_even a (2 ^ s) * 2 ^ s"
    by (rule mult_le_mono1)
  then have l: "2 ^ (52 + s) \<le> nearest_float a"
    by (simp only: nf power_add)
  have "a \<le> 2 ^ 53 * 2 ^ s"
    using st(1) by (simp only: power_add)
  with pos have "round_half_even a (2 ^ s) \<le> 2 ^ 53"
    by (rule round_half_even_le)
  then have "round_half_even a (2 ^ s) * 2 ^ s \<le> 2 ^ 53 * 2 ^ s"
    by (rule mult_le_mono1)
  then have u: "nearest_float a \<le> 2 ^ (53 + s)"
    by (simp only: nf power_add)
  from s_def [symmetric] lo st(1) nf l u show thesis
    by (rule that)
qed

lemma nearest_float_mono:
  assumes "a \<le> b"
  shows "nearest_float a \<le> nearest_float b"
proof (cases "b < 2 ^ 53")
  case True
  with assms show ?thesis
    by (simp add: nearest_float_def)
next
  case False
  then have "2 ^ 53 \<le> b"
    by simp
  then obtain t where t: "shift_right b 1 0 = t" "2 ^ (52 + t) \<le> b" "b < 2 ^ (53 + t)"
    "nearest_float b = round_half_even b (2 ^ t) * 2 ^ t"
    "2 ^ (52 + t) \<le> nearest_float b" "nearest_float b \<le> 2 ^ (53 + t)"
    by (rule nearest_float_big)
  show ?thesis
  proof (cases "a < 2 ^ 53")
    case True
    then have "nearest_float a = a"
      by (simp add: nearest_float_def)
    moreover from \<open>2 ^ 53 \<le> b\<close> t(3) have "(2::nat) ^ 53 < 2 ^ (53 + t)"
      by linarith
    then have "53 < 53 + t"
      by (rule power_less_imp_less_exp [rotated]) simp
    then have "53 \<le> 52 + t"
      by simp
    then have "(2::nat) ^ 53 \<le> 2 ^ (52 + t)"
      by (intro power_increasing) simp_all
    ultimately show ?thesis
      using True t(5) by linarith
  next
    case False
    then have "2 ^ 53 \<le> a"
      by simp
    then obtain s where s: "shift_right a 1 0 = s" "2 ^ (52 + s) \<le> a" "a < 2 ^ (53 + s)"
      "nearest_float a = round_half_even a (2 ^ s) * 2 ^ s"
      "2 ^ (52 + s) \<le> nearest_float a" "nearest_float a \<le> 2 ^ (53 + s)"
      by (rule nearest_float_big)
    from s(2) assms t(3) have "(2::nat) ^ (52 + s) < 2 ^ (53 + t)"
      by linarith
    then have "52 + s < 53 + t"
      by (rule power_less_imp_less_exp [rotated]) simp
    then have st: "s \<le> t"
      by simp
    show ?thesis
    proof (cases "s = t")
      case True
      have "round_half_even a (2 ^ t) \<le> round_half_even b (2 ^ t)"
        using assms by (intro round_half_even_mono) simp_all
      then have "round_half_even a (2 ^ t) * 2 ^ t \<le> round_half_even b (2 ^ t) * 2 ^ t"
        by (rule mult_le_mono1)
      then show ?thesis
        by (simp only: s(4) t(4) True)
    next
      case False
      with st have "53 + s \<le> 52 + t"
        by simp
      then have "(2::nat) ^ (53 + s) \<le> 2 ^ (52 + t)"
        by (intro power_increasing) simp_all
      with s(6) t(5) show ?thesis
        by linarith
    qed
  qed
qed


text \<open>A power of two converts to itself, and an integer from \<open>2 ^ 53\<close> on to its rounding.\<close>

lemma nearest_float_pow2: "nearest_float (2 ^ k) = 2 ^ k"
proof (cases "(2::nat) ^ k < 2 ^ 53")
  case True
  then show ?thesis
    by (simp add: nearest_float_def)
next
  case False
  then have "(2::nat) ^ 53 \<le> 2 ^ k"
    by simp
  then obtain s where s: "shift_right (2 ^ k) 1 0 = s" "(2::nat) ^ (52 + s) \<le> 2 ^ k"
    "nearest_float (2 ^ k) = round_half_even (2 ^ k) (2 ^ s) * 2 ^ s"
    by (rule nearest_float_big)
  from s(2) have "52 + s \<le> k"
    by (rule power_le_imp_le_exp [rotated]) simp
  then have k: "k = (k - s) + s"
    by simp
  have "(2::nat) ^ k = 2 ^ (k - s) * 2 ^ s"
    by (subst k) (simp only: power_add)
  then have "round_half_even (2 ^ k) (2 ^ s) = 2 ^ (k - s)"
    by (simp add: round_half_even_exact)
  then have "nearest_float (2 ^ k) = 2 ^ (k - s) * 2 ^ s"
    by (simp only: s(3))
  also have "\<dots> = 2 ^ k"
    by (subst (2) k) (simp only: power_add)
  finally show ?thesis .
qed

lemma binary64_round_big:
  assumes "2 ^ 53 \<le> a" and "a < 2 ^ 64"
  shows "binary64_round False a 1 = Finite False (nearest_float a) 1"
proof -
  from assms(1) obtain s where s: "shift_right a 1 0 = s" "2 ^ (52 + s) \<le> a" "a < 2 ^ (53 + s)"
    "nearest_float a = round_half_even a (2 ^ s) * 2 ^ s"
    "2 ^ (52 + s) \<le> nearest_float a" "nearest_float a \<le> 2 ^ (53 + s)"
    by (rule nearest_float_big)
  from s(2) assms(2) have "(2::nat) ^ (52 + s) < 2 ^ 64"
    by linarith
  then have "52 + s < 64"
    by (rule power_less_imp_less_exp [rotated]) simp
  then have "53 + s \<le> 64"
    by simp
  then have "(2::nat) ^ (53 + s) \<le> 2 ^ 64"
    by (intro power_increasing) simp_all
  moreover have "(2::nat) ^ 64 < 2 ^ 1024"
    by (rule power_strict_increasing) simp_all
  ultimately have "nearest_float a < 2 ^ 1024"
    using s(6) by linarith
  then have ov: "\<not> 2 ^ 1024 \<le> round_half_even a (1 * 2 ^ s) * 2 ^ s"
    by (simp only: s(4) mult_1 not_le)
  have br: "1 * 2 ^ 53 \<le> a"
    using assms(1) by simp
  have "binary64_round False a 1 = Finite False (round_half_even a (1 * 2 ^ s) * 2 ^ s) 1"
    by (simp only: binary64_round_def br if_True s(1) Let_def ov if_False)
  then show ?thesis
    by (simp only: s(4) mult_1)
qed

text \<open>The conversion of a \<open>uint64\<close> is a fraction of the value \<open>nearest_float\<close>.\<close>

lemma binary64_round_uint64:
  assumes "a < 2 ^ 64"
  obtains y where "binary64_round False a 1 = Finite False (nearest_float a * y) y" "0 < y"
proof (cases "a < 2 ^ 53")
  case True
  then have "binary64_round False a 1
      = Finite False (a * 2 ^ shift_left a 1 0) (2 ^ shift_left a 1 0)"
    by (rule binary64_round_integer)
  with True have "binary64_round False a 1
      = Finite False (nearest_float a * 2 ^ shift_left a 1 0) (2 ^ shift_left a 1 0)"
    by (simp add: nearest_float_def)
  then show thesis
    by (rule that) simp
next
  case False
  then have "2 ^ 53 \<le> a"
    by simp
  then have "binary64_round False a 1 = Finite False (nearest_float a) 1"
    using assms by (rule binary64_round_big)
  then have "binary64_round False a 1 = Finite False (nearest_float a * 1) 1"
    by simp
  then show thesis
    by (rule that) simp
qed




text \<open>
  From \<open>2 ^ 53\<close> on, the quotient of the converted integer by the power of two is exact
  as well, and \<open>%.1f\<close> prints the quotient of the rounded integer.
\<close>

lemma sprintf_1f_quotient_big:
  assumes "2 ^ 53 \<le> a" and "a < 2 ^ 64" and "2 ^ k \<le> a" and "a < 2 ^ (k + 10)" and "k < 64"
  shows "sprintf_1f (float64_div (binary64_round False a 1) (binary64_round False (2 ^ k) 1)) =
    one_decimal (nearest_float a) (2 ^ k)"
proof -
  define N where "N = nearest_float a"
  define D :: nat where "D = 2 ^ k"
  from assms(1) obtain s where s: "nearest_float a = round_half_even a (2 ^ s) * 2 ^ s"
    "nearest_float a \<le> 2 ^ (53 + s)"
    by (rule nearest_float_big)
  define m where "m = round_half_even a (2 ^ s)"
  have Nm: "N = m * 2 ^ s"
    by (simp only: N_def m_def s(1))
  have "m * 2 ^ s \<le> 2 ^ 53 * 2 ^ s"
    using s(2) by (simp only: N_def [symmetric] Nm power_add)
  then have m53: "m \<le> 2 ^ 53"
    by simp
  have D: "0 < D"
    by (simp add: D_def)
  have "nearest_float (2 ^ k) \<le> nearest_float a"
    using assms(3) by (rule nearest_float_mono)
  then have DN: "D \<le> N"
    by (simp only: nearest_float_pow2 D_def N_def)
  have "a \<le> 2 ^ (k + 10)"
    using assms(4) by simp
  then have "nearest_float a \<le> nearest_float (2 ^ (k + 10))"
    by (rule nearest_float_mono)
  then have "N \<le> 2 ^ (k + 10)"
    by (simp only: nearest_float_pow2 N_def)
  then have ND: "N \<le> D * 2 ^ 10"
    by (simp only: D_def power_add)
  have N: "0 < N"
    using D DN by linarith
  have fa: "binary64_round False a 1 = Finite False N 1"
    unfolding N_def using assms(1,2) by (rule binary64_round_big)
  have "(2::nat) ^ k < 2 ^ 64"
    using assms(5) by (intro power_strict_increasing) simp_all
  then obtain y where fc': "binary64_round False (2 ^ k) 1
      = Finite False (nearest_float (2 ^ k) * y) y" and y: "0 < y"
    by (rule binary64_round_uint64)
  from fc' have fc: "binary64_round False (2 ^ k) 1 = Finite False (D * y) y"
    by (simp only: nearest_float_pow2 D_def)
  have q: "float64_div (Finite False N 1) (Finite False (D * y) y)
      = binary64_round False (y * N) (y * D)"
    using D y by (simp add: mult_ac)
  define t where "t = shift_left (y * N) (y * D) 0"
  have "N < D * 2 ^ 53"
  proof -
    have "D * 2 ^ 10 < D * 2 ^ 53"
      using D by (intro mult_strict_left_mono) simp_all
    with ND show ?thesis
      by linarith
  qed
  then have "y * N < y * (D * 2 ^ 53)"
    using y by simp
  then have br: "\<not> y * D * 2 ^ 53 \<le> y * N"
    by (simp add: mult.assoc)
  have r: "binary64_round False (y * N) (y * D)
      = Finite False (round_half_even (y * N * 2 ^ t) (y * D)) (2 ^ t)"
    by (simp only: binary64_round_def br if_False Let_def t_def)
  have ex: "\<exists>Q. N * 2 ^ t = Q * D"
  proof -
    from shift_left_stop [of "y * N" "y * D" 0]
    consider "1074 \<le> t" | "y * D * 2 ^ 52 \<le> y * N * 2 ^ t"
      using y N by (auto simp: t_def)
    then show ?thesis
    proof cases
      case 1
      with assms(5) have "t = (t - k) + k"
        by simp
      then have "(2::nat) ^ t = 2 ^ (t - k) * 2 ^ k"
        by (simp only: power_add [symmetric])
      then have "N * 2 ^ t = (N * 2 ^ (t - k)) * D"
        by (simp only: D_def mult.assoc)
      then show ?thesis
        by blast
    next
      case 2
      then have "y * (D * 2 ^ 52) \<le> y * (N * 2 ^ t)"
        by (simp only: mult.assoc)
      with y have "D * 2 ^ 52 \<le> N * 2 ^ t"
        by simp
      then have lo: "2 ^ (k + 52) \<le> m * 2 ^ (s + t)"
        by (simp only: D_def Nm power_add mult.assoc)
      show ?thesis
      proof (cases "k \<le> s + t")
        case True
        then have "s + t = (s + t - k) + k"
          by simp
        then have "(2::nat) ^ (s + t) = 2 ^ (s + t - k) * 2 ^ k"
          by (simp only: power_add [symmetric])
        then have "m * 2 ^ (s + t) = (m * 2 ^ (s + t - k)) * D"
          by (simp only: D_def mult.assoc)
        then have "N * 2 ^ t = (m * 2 ^ (s + t - k)) * D"
          by (simp only: Nm power_add mult.assoc)
        then show ?thesis
          by blast
      next
        case False
        have "m * 2 ^ (s + t) \<le> 2 ^ 53 * 2 ^ (s + t)"
          using m53 by (rule mult_le_mono1)
        with lo have "(2::nat) ^ (k + 52) \<le> 2 ^ (53 + (s + t))"
          by (simp only: power_add)
        then have "k + 52 \<le> 53 + (s + t)"
          by (rule power_le_imp_le_exp [rotated]) simp
        with False have k: "k = s + t + 1"
          by simp
        have "(2::nat) ^ (k + 52) = 2 ^ 53 * 2 ^ (s + t)"
          by (simp add: k power_add)
        with lo have "2 ^ 53 * 2 ^ (s + t) \<le> m * 2 ^ (s + t)"
          by simp
        then have "2 ^ 53 \<le> m"
          by simp
        with m53 have "m = 2 ^ 53"
          by simp
        then have "N * 2 ^ t = 2 ^ 53 * 2 ^ (s + t)"
          by (simp add: Nm power_add)
        also have "\<dots> = 2 ^ 52 * D"
          by (simp add: D_def k power_add)
        finally show ?thesis
          by blast
      qed
    qed
  qed
  then obtain Q where Q: "N * 2 ^ t = Q * D"
    by blast
  have "round_half_even (y * N * 2 ^ t) (y * D) = round_half_even (y * (N * 2 ^ t)) (y * D)"
    by (simp only: mult.assoc)
  also have "\<dots> = round_half_even (N * 2 ^ t) D"
    using y by (rule round_half_even_scale)
  also have "\<dots> = Q"
    using D by (simp only: Q round_half_even_exact)
  finally have rq: "round_half_even (y * N * 2 ^ t) (y * D) = Q" .
  have "round_half_even (10 * Q) (2 ^ t) = round_half_even (D * (10 * Q)) (D * 2 ^ t)"
    using D by (simp only: round_half_even_scale)
  also have "D * (10 * Q) = 2 ^ t * (10 * N)"
    using Q by (simp add: mult_ac)
  also have "D * 2 ^ t = 2 ^ t * D"
    by (rule mult.commute)
  also have "round_half_even (2 ^ t * (10 * N)) (2 ^ t * D) = round_half_even (10 * N) D"
    by (rule round_half_even_scale) simp
  finally have "round_half_even (10 * Q) (2 ^ t) = round_half_even (10 * N) D" .
  then have p: "sprintf_1f (Finite False Q (2 ^ t)) = one_decimal N D"
    by (simp add: one_decimal_def Let_def)
  have e: "float64_div (binary64_round False a 1) (binary64_round False (2 ^ k) 1)
      = Finite False Q (2 ^ t)"
    by (simp only: fa fc q r rq)
  from p show ?thesis
    unfolding e N_def D_def .
qed

lemma fixture_values:
  "disk_Usage_UsedPercent 1024 1024 = Finite False (50 * 2 ^ 47) (2 ^ 47)"
  "disk_Usage_UsedPercent 512 1536 = Finite False (25 * 2 ^ 48) (2 ^ 48)"
  "disk_Usage_UsedPercent 2048 0 = Finite False (100 * 2 ^ 46) (2 ^ 46)"
  "disk_Usage_UsedPercent 0 0 = Finite False 0 1"
  by (simp_all add: disk_Usage_UsedPercent_def binary64_round_def shift_left.simps
      shift_right.simps round_half_even_def Let_def hundred_def float64_of_uint64_def)

section \<open>The size formatter\<close>

lemma ge_1024_unat: "(1024 \<le> (n :: 64 word)) = (1024 \<le> unat n)"
  by (simp add: word_le_nat_alt)

text \<open>A quotient between \<open>1024 ^ j\<close> and \<open>1024 ^ (j + 1)\<close> takes exactly \<open>j\<close> rounds.\<close>

lemma humanReadableSize_loop_exact:
  "1024 ^ j \<le> unat n \<Longrightarrow> unat n < 1024 ^ (j + 1) \<Longrightarrow>
   humanReadableSize_loop n dv ex = (dv * 1024 ^ j, ex + j)"
proof (induction j arbitrary: n dv ex)
  case 0
  then have "\<not> 1024 \<le> n"
    by (simp add: ge_1024_unat)
  then show ?case
    by (subst humanReadableSize_loop.simps) simp
next
  case (Suc j)
  have big: "1024 \<le> n"
  proof -
    have "(1::nat) \<le> 1024 ^ j" by simp
    then have "(1024::nat) * 1 \<le> 1024 * 1024 ^ j" by (rule mult_le_mono2)
    then have "(1024::nat) \<le> 1024 ^ Suc j" by (simp only: power_Suc mult_1_right)
    then have "1024 \<le> unat n" using Suc.prems(1) by (rule le_trans)
    then show ?thesis by (simp add: ge_1024_unat)
  qed
  have d: "unat (n div 1024) = unat n div 1024"
    by (simp add: unat_div)
  have lo: "1024 ^ j \<le> unat (n div 1024)"
    using Suc.prems(1) by (simp add: d less_eq_div_iff_mult_less_eq mult.commute)
  have hi: "unat (n div 1024) < 1024 ^ (j + 1)"
    using Suc.prems(2) by (simp add: d div_less_iff_less_mult mult.commute)
  show ?case
    by (subst humanReadableSize_loop.simps) (simp add: big Suc.IH [OF lo hi] mult.assoc)
qed

lemma humanReadableSize_loop_bound:
  "unat n < 1024 ^ (j + 1) \<Longrightarrow> snd (humanReadableSize_loop n dv ex) \<le> ex + j"
proof (induction j arbitrary: n dv ex)
  case 0
  then have "\<not> 1024 \<le> n"
    by (simp add: ge_1024_unat)
  then show ?case
    by (subst humanReadableSize_loop.simps) simp
next
  case (Suc j)
  have d: "unat (n div 1024) = unat n div 1024"
    by (simp add: unat_div)
  have hi: "unat (n div 1024) < 1024 ^ (j + 1)"
    using Suc.prems by (simp add: d div_less_iff_less_mult mult.commute)
  show ?case
    using Suc.IH [OF hi, of "dv * 1024" "ex + 1"]
    by (subst humanReadableSize_loop.simps) simp
qed

lemma humanReadableSize_loop_le_5:
  "snd (humanReadableSize_loop (sz div 1024) dv 0) \<le> 5"
proof -
  have "unat sz < 2 ^ 64"
    using unsigned_less [of sz, where 'a = nat] by simp
  then have "unat (sz div 1024) < 1024 ^ (5 + 1)"
    by (simp add: unat_div div_less_iff_less_mult)
  from humanReadableSize_loop_bound [OF this, of dv 0] show ?thesis
    by simp
qed

lemma humanReadableSize_Inr: "\<exists>s. humanReadableSize sz = Inr s"
  using humanReadableSize_loop_le_5 [of sz 1024]
  by (auto simp: humanReadableSize_def Let_def split: prod.splits)

lemma humanReadableSize_human: "humanReadableSize sz = Inr (human sz)"
  using humanReadableSize_Inr [of sz] by (auto simp: human_def)

text \<open>
  C10. The size formatter is total and never indexes the unit string out of bounds: for
  every \<open>uint64\<close> input the loop ends (the termination proof of
  \<open>humanReadableSize_loop\<close>) with a unit exponent of at most 5, so \<open>"KMGTPE"[exp]\<close> is
  in range, and the function returns a string and does not panic.
\<close>

theorem C10_humanReadableSize_total:
  "snd (humanReadableSize_loop (sz div 1024) 1024 0) \<le> 5
   \<and> snd (humanReadableSize_loop (sz div 1024) 1024 0) < length ''KMGTPE''
   \<and> (\<exists>s. humanReadableSize sz = Inr s)"
proof -
  have le: "snd (humanReadableSize_loop (sz div 1024) 1024 0) \<le> 5"
    by (rule humanReadableSize_loop_le_5)
  then have "snd (humanReadableSize_loop (sz div 1024) 1024 0) < length ''KMGTPE''"
    by simp
  with le humanReadableSize_Inr [of sz] show ?thesis
    by blast
qed

text \<open>A power of 1024 below a \<open>uint64\<close> has an exponent of at most 6, and is not negative
  as an \<open>int64\<close>: \<open>div\<close> never wraps.\<close>

lemma pow1024_le_6:
  assumes "1024 ^ e \<le> unat (sz :: 64 word)"
  shows "e \<le> 6"
proof (rule ccontr)
  assume "\<not> e \<le> 6"
  then have "7 \<le> e" by simp
  then have "(1024::nat) ^ 7 \<le> 1024 ^ e"
    by (rule power_increasing) simp
  moreover have "unat sz < 2 ^ 64"
    using unsigned_less [of sz, where 'a = nat] by simp
  ultimately show False
    using assms by simp
qed

lemma sint_pow1024:
  assumes "e \<le> 6"
  shows "sint ((1024 :: 64 word) ^ e) = 1024 ^ e"
proof -
  from assms have "e \<in> {0, 1, 2, 3, 4, 5, 6}"
    by auto
  then show ?thesis
    by (elim insertE emptyE) simp_all
qed

lemma float64_of_int64_pow1024:
  assumes "e \<le> 6"
  shows "float64_of_int64 ((1024 :: 64 word) ^ e) = binary64_round False (1024 ^ e) 1"
  by (simp add: float64_of_int64_def sint_pow1024 [OF assms] nat_power_eq)

lemma humanReadableSize_small:
  "sz < 1024 \<Longrightarrow> humanReadableSize sz = Inr (decimal (unat sz) @ '' B'')"
  by (simp add: humanReadableSize_def)

lemma humanReadableSize_large:
  assumes "1 \<le> e" and "1024 ^ e \<le> unat sz" and "unat sz < 1024 ^ (e + 1)"
  shows "humanReadableSize sz =
    Inr (sprintf_1f (float64_div (float64_of_uint64 sz) (binary64_round False (1024 ^ e) 1))
         @ '' '' @ [''KMGTPE'' ! (e - 1)] @ ''B'')"
proof -
  obtain j where j: "e = Suc j"
    using assms(1) by (cases e) simp_all
  have e6: "e \<le> 6"
    using assms(2) by (rule pow1024_le_6)
  have "(1024::nat) ^ 1 \<le> 1024 ^ e"
    using assms(1) by (intro power_increasing) simp_all
  with assms(2) have "1024 \<le> unat sz"
    by simp
  then have big: "\<not> sz < 1024"
    by (simp add: word_less_nat_alt)
  have d: "unat (sz div 1024) = unat sz div 1024"
    by (simp add: unat_div)
  have lo: "1024 ^ j \<le> unat (sz div 1024)"
    using assms(2) by (simp add: j d less_eq_div_iff_mult_less_eq mult.commute)
  have hi: "unat (sz div 1024) < 1024 ^ (j + 1)"
    using assms(3) by (simp add: j d div_less_iff_less_mult mult.commute)
  have loop: "humanReadableSize_loop (sz div 1024) 1024 0 = (1024 ^ e, e - 1)"
    using humanReadableSize_loop_exact [OF lo hi, of 1024 0] by (simp add: j)
  have idx: "e - 1 < length ''KMGTPE''"
    using e6 j by simp
  show ?thesis
    unfolding humanReadableSize_def
    by (simp only: big loop idx float64_of_int64_pow1024 [OF e6] if_False if_True Let_def
        prod.case)
qed

text \<open>Below \<open>2 ^ 53\<close> the conversion and the division are exact.\<close>

lemma humanReadableSize_exact:
  assumes "1 \<le> e" and "1024 ^ e \<le> unat sz" and "unat sz < 1024 ^ (e + 1)"
    and "unat sz < 2 ^ 53"
  shows "humanReadableSize sz =
    Inr (one_decimal (unat sz) (1024 ^ e) @ '' '' @ [''KMGTPE'' ! (e - 1)] @ ''B'')"
proof -
  have p: "(1024::nat) ^ e = 2 ^ (10 * e)"
    by (simp add: power_mult)
  have "(1024::nat) ^ e < 2 ^ 53"
    using assms(2,4) by (rule le_less_trans)
  then have "(2::nat) ^ (10 * e) < 2 ^ 53"
    by (simp only: p)
  then have k: "10 * e < 53"
    by (rule power_less_imp_less_exp [rotated]) simp
  have "(1::nat) \<le> 1024 ^ e"
    by simp
  with assms(2) have a: "0 < unat sz"
    by linarith
  have "sprintf_1f (float64_div (float64_of_uint64 sz) (binary64_round False (1024 ^ e) 1))
      = one_decimal (unat sz) (1024 ^ e)"
    unfolding float64_of_uint64_def p one_decimal_def
    using a assms(4) k by (rule sprintf_1f_quotient)
  with humanReadableSize_large [OF assms(1-3)] show ?thesis
    by simp
qed

text \<open>
  From \<open>2 ^ 53\<close> bytes on the number printed is that of the rounded byte count.
\<close>

lemma humanReadableSize_rounded:
  assumes "1 \<le> e" and "1024 ^ e \<le> unat sz" and "unat sz < 1024 ^ (e + 1)"
  shows "humanReadableSize sz =
    Inr (one_decimal (nearest_float (unat sz)) (1024 ^ e) @ '' '' @ [''KMGTPE'' ! (e - 1)] @ ''B'')"
proof (cases "unat sz < 2 ^ 53")
  case True
  then have "nearest_float (unat sz) = unat sz"
    by (simp add: nearest_float_def)
  with humanReadableSize_exact [OF assms True] show ?thesis
    by simp
next
  case False
  then have big: "2 ^ 53 \<le> unat sz"
    by simp
  have p: "(1024::nat) ^ e = 2 ^ (10 * e)"
    by (simp add: power_mult)
  have p': "(1024::nat) ^ (e + 1) = 2 ^ (10 * e + 10)"
    by (simp add: power_mult power_add)
  have a64: "unat sz < 2 ^ 64"
    using unsigned_less [of sz, where 'a = nat] by simp
  from assms(2) a64 have "(2::nat) ^ (10 * e) < 2 ^ 64"
    by (simp only: p)
  then have k: "10 * e < 64"
    by (rule power_less_imp_less_exp [rotated]) simp
  have lo: "2 ^ (10 * e) \<le> unat sz"
    using assms(2) by (simp only: p)
  have hi: "unat sz < 2 ^ (10 * e + 10)"
    using assms(3) by (simp only: p')
  have "sprintf_1f (float64_div (float64_of_uint64 sz) (binary64_round False (1024 ^ e) 1))
      = one_decimal (nearest_float (unat sz)) (1024 ^ e)"
    unfolding float64_of_uint64_def p
    using big a64 lo hi k by (rule sprintf_1f_quotient_big)
  with humanReadableSize_large [OF assms] show ?thesis
    by simp
qed

text \<open>
  C5 (as amended). For a byte count below 1024 the formatter returns the decimal integer
  followed by \<open>" B"\<close>. Otherwise, with \<open>e\<close> the number of divisions by 1024 (the \<open>e\<close>
  with \<open>1024 ^ e \<le> b < 1024 ^ (e + 1)\<close>), it returns \<open>float64(b) / float64(1024 ^ e)\<close>
  printed with one digit after the point, a space, the letter of \<open>"KMGTPE"\<close> at index
  \<open>e - 1\<close> and \<open>"B"\<close>. The number printed is the quotient by \<open>1024 ^ e\<close> of the byte
  count rounded to 53 significant bits, rounded once to one decimal digit; below
  \<open>2 ^ 53\<close> bytes the byte count is its own rounding, and the number is the exact
  quotient \<open>b / 1024 ^ e\<close> rounded to one decimal digit. In particular 1536 gives
  \<open>"1.5 KB"\<close> and 1073741824 gives \<open>"1.0 GB"\<close>.
\<close>

theorem C5_humanReadableSize_format:
  "(sz < 1024 \<longrightarrow> humanReadableSize sz = Inr (decimal (unat sz) @ '' B''))
   \<and> (1 \<le> e \<and> 1024 ^ e \<le> unat sz \<and> unat sz < 1024 ^ (e + 1) \<longrightarrow>
        humanReadableSize sz =
          Inr (sprintf_1f (float64_div (float64_of_uint64 sz) (binary64_round False (1024 ^ e) 1))
               @ '' '' @ [''KMGTPE'' ! (e - 1)] @ ''B'')
        \<and> humanReadableSize sz =
            Inr (one_decimal (nearest_float (unat sz)) (1024 ^ e)
                 @ '' '' @ [''KMGTPE'' ! (e - 1)] @ ''B'')
        \<and> (unat sz < 2 ^ 53 \<longrightarrow>
             humanReadableSize sz =
               Inr (one_decimal (unat sz) (1024 ^ e) @ '' '' @ [''KMGTPE'' ! (e - 1)] @ ''B'')))
   \<and> humanReadableSize 1536 = Inr ''1.5 KB''
   \<and> humanReadableSize 1073741824 = Inr ''1.0 GB''"
proof (intro conjI impI)
  assume "1 \<le> e \<and> 1024 ^ e \<le> unat sz \<and> unat sz < 1024 ^ (e + 1)"
  then show "humanReadableSize sz =
      Inr (one_decimal (nearest_float (unat sz)) (1024 ^ e)
           @ '' '' @ [''KMGTPE'' ! (e - 1)] @ ''B'')"
    by (intro humanReadableSize_rounded) simp_all
next
  show "humanReadableSize 1536 = Inr ''1.5 KB''"
    by (simp add: humanReadableSize_eval)
  show "humanReadableSize 1073741824 = Inr ''1.0 GB''"
    by (simp add: humanReadableSize_eval)
next
  assume "sz < 1024"
  then show "humanReadableSize sz = Inr (decimal (unat sz) @ '' B'')"
    by (rule humanReadableSize_small)
next
  assume "1 \<le> e \<and> 1024 ^ e \<le> unat sz \<and> unat sz < 1024 ^ (e + 1)"
  then show "humanReadableSize sz =
      Inr (sprintf_1f (float64_div (float64_of_uint64 sz) (binary64_round False (1024 ^ e) 1))
           @ '' '' @ [''KMGTPE'' ! (e - 1)] @ ''B'')"
    by (intro humanReadableSize_large) simp_all
next
  assume "1 \<le> e \<and> 1024 ^ e \<le> unat sz \<and> unat sz < 1024 ^ (e + 1)" and "unat sz < 2 ^ 53"
  then show "humanReadableSize sz =
      Inr (one_decimal (unat sz) (1024 ^ e) @ '' '' @ [''KMGTPE'' ! (e - 1)] @ ''B'')"
    by (intro humanReadableSize_exact) simp_all
qed

text \<open>
  The theorem at 1000 bytes, at 5 MiB, where \<open>e = 2\<close>, and at 9063494250083123 bytes,
  where \<open>e = 5\<close> and the byte count rounds to 9063494250083124.
\<close>

theorem C5_humanReadableSize_format_witness:
  "(1000 :: 64 word) < 1024 \<and> humanReadableSize 1000 = Inr ''1000 B''
   \<and> (1::nat) \<le> 2 \<and> 1024 ^ 2 \<le> unat (5242880 :: 64 word)
   \<and> unat (5242880 :: 64 word) < 1024 ^ (2 + 1)
   \<and> unat (5242880 :: 64 word) < 2 ^ 53
   \<and> humanReadableSize 5242880 =
       Inr (sprintf_1f (float64_div (float64_of_uint64 5242880) (binary64_round False (1024 ^ 2) 1))
            @ '' '' @ [''KMGTPE'' ! (2 - 1)] @ ''B'')
   \<and> humanReadableSize 5242880 =
       Inr (one_decimal (unat (5242880 :: 64 word)) (1024 ^ 2) @ '' '' @ [''KMGTPE'' ! (2 - 1)] @ ''B'')
   \<and> one_decimal (unat (5242880 :: 64 word)) (1024 ^ 2) = ''5.0''
   \<and> humanReadableSize 5242880 = Inr ''5.0 MB''
   \<and> (1::nat) \<le> 5 \<and> 1024 ^ 5 \<le> unat (9063494250083123 :: 64 word)
   \<and> unat (9063494250083123 :: 64 word) < 1024 ^ (5 + 1)
   \<and> nearest_float (unat (9063494250083123 :: 64 word)) = 9063494250083124
   \<and> humanReadableSize 9063494250083123 =
       Inr (one_decimal (nearest_float (unat (9063494250083123 :: 64 word))) (1024 ^ 5)
            @ '' '' @ [''KMGTPE'' ! (5 - 1)] @ ''B'')
   \<and> one_decimal 9063494250083124 (1024 ^ 5) = ''8.1''"
proof -
  have k1: "(1::nat) \<le> 5 \<and> 1024 ^ 5 \<le> unat (9063494250083123 :: 64 word)
      \<and> unat (9063494250083123 :: 64 word) < 1024 ^ (5 + 1)"
    by simp
  have k2: "nearest_float (unat (9063494250083123 :: 64 word)) = 9063494250083124"
    by (simp add: nearest_float_def shift_right.simps round_half_even_def)
  have k3: "one_decimal 9063494250083124 (1024 ^ 5) = ''8.1''"
    by (simp add: one_decimal_def round_half_even_def decimal.simps)
  from C5_humanReadableSize_format [of 9063494250083123 5] k1
  have k4: "humanReadableSize 9063494250083123 =
       Inr (one_decimal (nearest_float (unat (9063494250083123 :: 64 word))) (1024 ^ 5)
            @ '' '' @ [''KMGTPE'' ! (5 - 1)] @ ''B'')"
    by blast
  have h1: "(1000 :: 64 word) < 1024"
    by (simp add: word_less_nat_alt)
  have h2: "(1::nat) \<le> 2 \<and> 1024 ^ 2 \<le> unat (5242880 :: 64 word)
      \<and> unat (5242880 :: 64 word) < 1024 ^ (2 + 1)"
    by simp
  have h3: "unat (5242880 :: 64 word) < 2 ^ 53"
    by simp
  have d: "decimal (unat (1000 :: 64 word)) = ''1000''"
    by (simp add: decimal.simps)
  have o: "one_decimal (unat (5242880 :: 64 word)) (1024 ^ 2) = ''5.0''"
    by (simp add: one_decimal_def round_half_even_def decimal.simps)
  have v: "humanReadableSize 5242880 = Inr ''5.0 MB''"
    by (simp add: humanReadableSize_eval)
  from C5_humanReadableSize_format [of 1000 2] h1 d
  have a: "humanReadableSize 1000 = Inr ''1000 B''"
    by (simp only: append.simps)
  from C5_humanReadableSize_format [of 5242880 2] h2 h3
  have b: "humanReadableSize 5242880 =
       Inr (sprintf_1f (float64_div (float64_of_uint64 5242880) (binary64_round False (1024 ^ 2) 1))
            @ '' '' @ [''KMGTPE'' ! (2 - 1)] @ ''B'')"
    and c: "humanReadableSize 5242880 =
       Inr (one_decimal (unat (5242880 :: 64 word)) (1024 ^ 2) @ '' '' @ [''KMGTPE'' ! (2 - 1)] @ ''B'')"
    by blast+
  from h1 h2 h3 a b c o v k1 k2 k3 k4 show ?thesis
    by (intro conjI) blast+
qed

text \<open>
  The claim as stated fails from \<open>2 ^ 53\<close> bytes on, where \<open>float64(size)\<close> rounds the byte
  count before the division: 9063494250083123 bytes divided by \<open>1024 ^ 5\<close> are
  8.0499..., which is 8.0 with one digit after the point, and the formatter returns
  \<open>"8.1 PB"\<close>, since the conversion rounds the byte count up to 9063494250083124. In
  the same way 9288674231451649 bytes are 8.2500...008, which is 8.3, and the formatter
  returns \<open>"8.2 PB"\<close>.
\<close>

theorem C5_counterexample:
  "(1024 :: nat) ^ 5 \<le> unat (9063494250083123 :: 64 word)
   \<and> unat (9063494250083123 :: 64 word) < 1024 ^ (5 + 1)
   \<and> one_decimal (unat (9063494250083123 :: 64 word)) (1024 ^ 5) = ''8.0''
   \<and> humanReadableSize 9063494250083123 = Inr ''8.1 PB''
   \<and> one_decimal (unat (9288674231451649 :: 64 word)) (1024 ^ 5) = ''8.3''
   \<and> humanReadableSize 9288674231451649 = Inr ''8.2 PB''"
proof -
  have a: "one_decimal (unat (9063494250083123 :: 64 word)) (1024 ^ 5) = ''8.0''"
    "one_decimal (unat (9288674231451649 :: 64 word)) (1024 ^ 5) = ''8.3''"
    by (simp_all add: one_decimal_def round_half_even_def decimal.simps)
  have b: "humanReadableSize 9063494250083123 = Inr ''8.1 PB''"
    by (simp add: humanReadableSize_eval)
  have c: "humanReadableSize 9288674231451649 = Inr ''8.2 PB''"
    by (simp add: humanReadableSize_eval)
  from a b c show ?thesis
    by simp
qed

section \<open>The collector\<close>

subsection \<open>The loop, round by round\<close>

lemma contains_set: "contains ss item = (item \<in> set ss)"
  by (induction ss) auto

lemma gatherDiskInfo_loop_Cons:
  "gatherDiskInfo_loop os ig hp (p # ps) (ds, tr) =
   gatherDiskInfo_loop os ig hp ps (ds @ emitted os ig hp p, tr @ events_of os ig hp p)"
  by (simp add: emitted_def events_of_def usage_of_def diskInfo_of_def Let_def
      humanReadableSize_human split: sum.splits)

lemma gatherDiskInfo_loop_eq:
  "gatherDiskInfo_loop os ig hp ps (ds, tr) =
   Inr (ds @ concat (map (emitted os ig hp) ps), tr @ concat (map (events_of os ig hp) ps))"
proof (induction ps arbitrary: ds tr)
  case Nil
  show ?case by simp
next
  case (Cons p ps)
  show ?case
    by (simp only: gatherDiskInfo_loop_Cons Cons.IH list.map concat.simps append_assoc)
qed

lemma gatherDiskInfo_eq:
  "PartitionsWithContext os True = Inr ps \<Longrightarrow>
   gatherDiskInfo os ig hp =
   Inr (concat (map (emitted os ig hp) ps), concat (map (events_of os ig hp) ps))"
  by (simp add: gatherDiskInfo_def gatherDiskInfo_loop_eq)

lemma emitted_update [simp]:
  "emitted (os\<lparr>PartitionsWithContext := f\<rparr>) ig hp = emitted os ig hp"
  by (rule ext) (simp add: emitted_def usage_of_def)

lemma events_of_update [simp]:
  "events_of (os\<lparr>PartitionsWithContext := f\<rparr>) ig hp = events_of os ig hp"
  by (rule ext) (simp add: events_of_def usage_of_def)

lemma emitted_elim:
  assumes "r \<in> set (emitted os ig hp p)"
  obtains u where "Mountpoint p \<noteq> ''''" "Usage os (Join os hp (Mountpoint p)) = Inr u"
    "Total u \<noteq> 0" "\<not> contains ig (Fstype p)" "r = diskInfo_of p u"
proof -
  from assms have m: "Mountpoint p \<noteq> ''''"
    by (auto simp: emitted_def split: if_splits)
  with assms obtain u where u: "Usage os (Join os hp (Mountpoint p)) = Inr u"
    by (cases "Usage os (Join os hp (Mountpoint p))") (auto simp: emitted_def usage_of_def)
  from assms m u have "Total u \<noteq> 0" "\<not> contains ig (Fstype p)" "r = diskInfo_of p u"
    by (auto simp: emitted_def usage_of_def split: if_splits)
  with m u show thesis
    by (rule that)
qed

text \<open>Taking a partition that emits nothing out of the enumeration leaves the records.\<close>

lemma gatherDiskInfo_drop:
  assumes "PartitionsWithContext os True = Inr (ps1 @ p # ps2)"
    and "emitted os ig hp p = []"
  shows "\<exists>recs tr tr'.
    gatherDiskInfo os ig hp = Inr (recs, tr) \<and>
    gatherDiskInfo (os\<lparr>PartitionsWithContext := \<lambda>all. Inr (ps1 @ ps2)\<rparr>) ig hp = Inr (recs, tr') \<and>
    recs = concat (map (emitted os ig hp) (ps1 @ p # ps2)) \<and>
    tr = concat (map (events_of os ig hp) (ps1 @ p # ps2)) \<and>
    tr' = concat (map (events_of os ig hp) (ps1 @ ps2))"
proof -
  have "PartitionsWithContext (os\<lparr>PartitionsWithContext := \<lambda>all. Inr (ps1 @ ps2)\<rparr>) True
      = Inr (ps1 @ ps2)"
    by simp
  from gatherDiskInfo_eq [OF assms(1), of ig hp] gatherDiskInfo_eq [OF this, of ig hp] assms(2)
  show ?thesis
    by simp
qed

lemma usage_queries_append: "usage_queries (a @ b) = usage_queries a @ usage_queries b"
  by (induction a rule: usage_queries.induct) simp_all

lemma usage_queries_events_of:
  "usage_queries (events_of os ig hp p) =
     (if Mountpoint p = '''' then [] else [Join os hp (Mountpoint p)])"
  by (simp add: events_of_def split: sum.splits)

lemma usage_queries_concat:
  "usage_queries (concat (map (events_of os ig hp) ps)) =
     map (\<lambda>p. Join os hp (Mountpoint p)) (filter (\<lambda>p. Mountpoint p \<noteq> '''') ps)"
  by (induction ps) (simp_all add: usage_queries_append usage_queries_events_of)

lemma emitted_no_ignore:
  "emitted os [] hp p = (case valid_sample os hp p of None \<Rightarrow> [] | Some u \<Rightarrow> [diskInfo_of p u])"
  by (simp add: emitted_def valid_sample_def split: sum.splits)

lemma concat_emitted_no_ignore:
  "concat (map (emitted os [] hp) ps) =
     List.map_filter (\<lambda>p. map_option (diskInfo_of p) (valid_sample os hp p)) ps"
  by (induction ps) (auto simp: emitted_no_ignore map_filter_simps split: option.splits)

lemma map_filter_valid_Device:
  "map Device (List.map_filter (\<lambda>p. map_option (diskInfo_of p) (valid_sample os hp p)) ps) =
     map PartitionStat.Device (filter (valid os hp) ps)"
  by (induction ps) (auto simp: map_filter_simps valid_def diskInfo_of_def split: option.splits)

text \<open>
  What a round emits, by the type and the validity of the partition; the records of a
  call are those of the partitions that are valid and not of an ignored type, each paired
  with its own partition.
\<close>

lemma emitted_cases:
  "emitted os ig hp p =
     (if Fstype p \<in> set ig then []
      else case valid_sample os hp p of None \<Rightarrow> [] | Some u \<Rightarrow> [diskInfo_of p u])"
  by (simp add: emitted_def valid_sample_def contains_set split: sum.splits)

lemma concat_emitted:
  "concat (map (emitted os ig hp) ps) =
     List.map_filter
       (\<lambda>p. if Fstype p \<in> set ig then None
            else map_option (diskInfo_of p) (valid_sample os hp p)) ps"
  by (induction ps) (auto simp: emitted_cases map_filter_simps split: option.splits)

lemma valid_sample_Some:
  "valid_sample os hp p = Some u \<Longrightarrow> Usage os (Join os hp (Mountpoint p)) = Inr u"
  by (simp add: valid_sample_def usage_of_def split: if_splits sum.splits)

lemma emitted_survivors:
  "list_all2 (\<lambda>r p. \<exists>u. Usage os (Join os hp (Mountpoint p)) = Inr u \<and> r = diskInfo_of p u)
     (concat (map (emitted os ig hp) ps))
     (filter (\<lambda>p. valid os hp p \<and> Fstype p \<notin> set ig) ps)"
proof (induction ps)
  case Nil
  show ?case by simp
next
  case (Cons p ps)
  show ?case
  proof (cases "valid_sample os hp p")
    case None
    with Cons show ?thesis
      by (simp add: emitted_cases valid_def)
  next
    case (Some u)
    then have "Usage os (Join os hp (Mountpoint p)) = Inr u"
      by (rule valid_sample_Some)
    with Cons Some show ?thesis
      by (simp add: emitted_cases valid_def)
  qed
qed

text \<open>Runs on the fixture.\<close>

lemma fix_run_root:
  "gatherDiskInfo (fix_os [p_root]) [] '''' = Inr ([diskInfo_of p_root u_root], [UsageQuery ''/''])"
  by (simp add: gatherDiskInfo_eq [of _ "[p_root]"] emitted_def events_of_def usage_of_def
      fixture_defs)

lemma fix_run_gone_proc:
  "gatherDiskInfo (fix_os [p_gone, p_proc]) [] '''' =
     Inr ([],
          [UsageQuery ''/mnt/gone'',
           Log ''Error getting usage for /mnt/gone: no such file or directory'',
           UsageQuery ''/proc'',
           Log ''Partition /proc has total size 0, skipping''])"
  by (simp add: gatherDiskInfo_eq [of _ "[p_gone, p_proc]"] emitted_def events_of_def
      usage_of_def fixture_defs)

lemma fix_run_gone_cdrom:
  "gatherDiskInfo (fix_os [p_gone, p_cdrom]) [''cdrom''] '''' =
     Inr ([],
          [UsageQuery ''/mnt/gone'',
           Log ''Error getting usage for /mnt/gone: no such file or directory'',
           UsageQuery ''/media/cdrom'',
           Log ''Partition /media/cdrom with type cdrom is in ignore list, skipping''])"
  by (simp add: gatherDiskInfo_eq [of _ "[p_gone, p_cdrom]"] emitted_def events_of_def
      usage_of_def fixture_defs)


subsection \<open>Percentages\<close>

text \<open>
  C1 (as amended). \<open>gatherDiskInfo\<close> returns one record for each partition that survives
  the filters (a mount point, a usage query that succeeds, a total size not zero, a type
  that is not ignored), in the order of the enumeration, and the record of a partition
  carries the device of that partition, the total, used and free bytes of the sample that
  the usage query returned for the mount point of that partition, and as \<open>UsedPercent\<close>
  the \<open>UsedPercent\<close> reported in that very sample, taken over unchanged (the collector
  computes no quotient of used and total bytes itself); its \<open>FreePercent\<close> is the
  \<open>float64\<close> difference of 100 and its \<open>UsedPercent\<close>.
\<close>

theorem C1_usedPercent_of_sample:
  assumes "PartitionsWithContext os True = Inr ps"
  shows "\<exists>recs tr. gatherDiskInfo os ignoreTypes hostProc = Inr (recs, tr)
    \<and> list_all2
        (\<lambda>r p. \<exists>u. Usage os (Join os hostProc (Mountpoint p)) = Inr u
           \<and> Device r = PartitionStat.Device p
           \<and> Size r = Total u \<and> Used r = UsageStat.Used u \<and> Free r = UsageStat.Free u
           \<and> UsedPercent r = UsageStat.UsedPercent u
           \<and> FreePercent r = float64_sub hundred (UsedPercent r))
        recs (filter (\<lambda>p. valid os hostProc p \<and> Fstype p \<notin> set ignoreTypes) ps)"
proof -
  have "list_all2
      (\<lambda>r p. \<exists>u. Usage os (Join os hostProc (Mountpoint p)) = Inr u
         \<and> Device r = PartitionStat.Device p
         \<and> Size r = Total u \<and> Used r = UsageStat.Used u \<and> Free r = UsageStat.Free u
         \<and> UsedPercent r = UsageStat.UsedPercent u
         \<and> FreePercent r = float64_sub hundred (UsedPercent r))
      (concat (map (emitted os ignoreTypes hostProc) ps))
      (filter (\<lambda>p. valid os hostProc p \<and> Fstype p \<notin> set ignoreTypes) ps)"
    using emitted_survivors [of os hostProc ignoreTypes ps]
    by (rule list_all2_mono) (auto simp: diskInfo_of_def)
  with gatherDiskInfo_eq [OF assms, of ignoreTypes hostProc] show ?thesis
    by blast
qed

text \<open>
  The theorem on the root file system followed by the data disk: two records,
  \<open>/dev/sda1\<close> with 50 and 50, then \<open>/dev/sdb1\<close> with 25 and 75, each the percentage of
  its own sample.
\<close>

theorem C1_usedPercent_of_sample_witness:
  "PartitionsWithContext (fix_os [p_root, p_data]) True = Inr [p_root, p_data]
   \<and> filter (\<lambda>p. valid (fix_os [p_root, p_data]) '''' p \<and> Fstype p \<notin> set [])
        [p_root, p_data] = [p_root, p_data]
   \<and> (\<exists>r1 r2 tr.
        gatherDiskInfo (fix_os [p_root, p_data]) [] '''' = Inr ([r1, r2], tr)
        \<and> Device r1 = ''/dev/sda1'' \<and> Size r1 = 4096 \<and> Used r1 = 1024
        \<and> UsedPercent r1 = UsageStat.UsedPercent u_root
        \<and> float64_eq (UsedPercent r1) (Finite False 50 1)
        \<and> float64_eq (FreePercent r1) (Finite False 50 1)
        \<and> Device r2 = ''/dev/sdb1'' \<and> Size r2 = 2048 \<and> Used r2 = 512
        \<and> UsedPercent r2 = UsageStat.UsedPercent u_data
        \<and> float64_eq (UsedPercent r2) (Finite False 25 1)
        \<and> float64_eq (FreePercent r2) (Finite False 75 1))"
proof -
  let ?os = "fix_os [p_root, p_data]"
  have h: "PartitionsWithContext ?os True = Inr [p_root, p_data]"
    by (simp add: fix_os_def)
  have f: "filter (\<lambda>p. valid ?os '''' p \<and> Fstype p \<notin> set []) [p_root, p_data]
      = [p_root, p_data]"
    by (simp add: valid_def valid_sample_def usage_of_def fixture_defs)
  have q: "Usage ?os (Join ?os '''' (Mountpoint p_root)) = Inr u_root"
    "Usage ?os (Join ?os '''' (Mountpoint p_data)) = Inr u_data"
    by (simp_all add: fixture_defs)
  from C1_usedPercent_of_sample [OF h, of "[]" "''''"] obtain recs tr where
    g: "gatherDiskInfo ?os [] '''' = Inr (recs, tr)"
    and l: "list_all2
        (\<lambda>r p. \<exists>u. Usage ?os (Join ?os '''' (Mountpoint p)) = Inr u
           \<and> Device r = PartitionStat.Device p
           \<and> Size r = Total u \<and> Used r = UsageStat.Used u \<and> Free r = UsageStat.Free u
           \<and> UsedPercent r = UsageStat.UsedPercent u
           \<and> FreePercent r = float64_sub hundred (UsedPercent r))
        recs [p_root, p_data]"
    unfolding f by blast
  from l obtain r1 r2 where r: "recs = [r1, r2]"
    and r1: "Device r1 = PartitionStat.Device p_root" "Size r1 = Total u_root"
      "Used r1 = UsageStat.Used u_root" "UsedPercent r1 = UsageStat.UsedPercent u_root"
      "FreePercent r1 = float64_sub hundred (UsedPercent r1)"
    and r2: "Device r2 = PartitionStat.Device p_data" "Size r2 = Total u_data"
      "Used r2 = UsageStat.Used u_data" "UsedPercent r2 = UsageStat.UsedPercent u_data"
      "FreePercent r2 = float64_sub hundred (UsedPercent r2)"
    by (auto simp: list_all2_Cons2 q)
  have v1: "float64_eq (UsedPercent r1) (Finite False 50 1)"
    "float64_eq (FreePercent r1) (Finite False 50 1)"
    by (simp_all add: r1(4,5) u_root_def fixture_values float64_eval)
  have v2: "float64_eq (UsedPercent r2) (Finite False 25 1)"
    "float64_eq (FreePercent r2) (Finite False 75 1)"
    by (simp_all add: r2(4,5) u_data_def fixture_values float64_eval)
  have d: "Device r1 = ''/dev/sda1''" "Size r1 = 4096" "Used r1 = 1024"
    "Device r2 = ''/dev/sdb1''" "Size r2 = 2048" "Used r2 = 512"
    by (simp_all add: r1 r2 p_root_def p_data_def u_root_def u_data_def)
  from g r r1(4) r2(4) v1 v2 d have "\<exists>r1 r2 tr.
        gatherDiskInfo ?os [] '''' = Inr ([r1, r2], tr)
        \<and> Device r1 = ''/dev/sda1'' \<and> Size r1 = 4096 \<and> Used r1 = 1024
        \<and> UsedPercent r1 = UsageStat.UsedPercent u_root
        \<and> float64_eq (UsedPercent r1) (Finite False 50 1)
        \<and> float64_eq (FreePercent r1) (Finite False 50 1)
        \<and> Device r2 = ''/dev/sdb1'' \<and> Size r2 = 2048 \<and> Used r2 = 512
        \<and> UsedPercent r2 = UsageStat.UsedPercent u_data
        \<and> float64_eq (UsedPercent r2) (Finite False 25 1)
        \<and> float64_eq (FreePercent r2) (Finite False 75 1)"
    by blast
  with h f show ?thesis
    by (intro conjI)
qed

text \<open>
  The claim as stated fails on the root file system of the fixture: the record holds
  1024 used bytes of 4096 and the used percentage 50 of the sample (that of 1024 used and
  1024 free bytes), while \<open>(used / total) * 100\<close> is 25 in \<open>float64\<close>.
\<close>

theorem C1_counterexample:
  "\<not> (\<forall>r \<in> set (case gatherDiskInfo (fix_os [p_root]) [] '''' of
                    Inl pn \<Rightarrow> [] | Inr (recs, tr) \<Rightarrow> recs).
        float64_eq (UsedPercent r) (usedPercent_spec (Used r) (Size r))
        \<and> FreePercent r = float64_sub hundred (UsedPercent r))"
proof -
  have "usedPercent_spec 1024 4096 = Finite False (25 * 2 ^ 48) (2 ^ 48)"
    by (simp add: usedPercent_spec_def binary64_round_def shift_left.simps shift_right.simps
        round_half_even_def Let_def hundred_def float64_of_uint64_def)
  then show ?thesis
    by (simp add: fix_run_root diskInfo_of_def u_root_def fixture_values)
qed



subsection \<open>Skipped partitions\<close>

text \<open>
  C2 (as amended). On an enumeration of one mount whose usage query fails and one mount
  (a partition with a mount point) whose usage query succeeds with a total size that is
  not zero and whose type is not in \<open>ignoreTypes\<close>, in either order, \<open>gatherDiskInfo\<close>
  returns normally, with exactly one record, the one of the succeeding mount; the failing
  mount is left out.
\<close>

theorem C2_failing_mount_omitted:
  assumes "PartitionsWithContext os True = Inr ps"
    and "ps = [bad, good] \<or> ps = [good, bad]"
    and "Usage os (Join os hostProc (Mountpoint bad)) = Inl err"
    and "Mountpoint good \<noteq> ''''"
    and "Usage os (Join os hostProc (Mountpoint good)) = Inr u"
    and "Total u \<noteq> 0"
    and "\<not> contains ignoreTypes (Fstype good)"
  shows "\<exists>tr. gatherDiskInfo os ignoreTypes hostProc = Inr ([diskInfo_of good u], tr)"
proof -
  have b: "emitted os ignoreTypes hostProc bad = []"
    using assms(3) by (simp add: emitted_def usage_of_def)
  have g: "emitted os ignoreTypes hostProc good = [diskInfo_of good u]"
    using assms(4-7) by (simp add: emitted_def usage_of_def)
  from assms(2) have "concat (map (emitted os ignoreTypes hostProc) ps) = [diskInfo_of good u]"
    by (auto simp: b g)
  with gatherDiskInfo_eq [OF assms(1), of ignoreTypes hostProc] show ?thesis
    by simp
qed

text \<open>The theorem on a vanished network mount followed by the root file system.\<close>

theorem C2_failing_mount_omitted_witness:
  "PartitionsWithContext (fix_os [p_gone, p_root]) True = Inr [p_gone, p_root]
   \<and> ([p_gone, p_root] = [p_gone, p_root] \<or> [p_gone, p_root] = [p_root, p_gone])
   \<and> Usage (fix_os [p_gone, p_root]) (Join (fix_os [p_gone, p_root]) '''' (Mountpoint p_gone))
       = Inl (OsError ''no such file or directory'')
   \<and> Mountpoint p_root \<noteq> ''''
   \<and> Usage (fix_os [p_gone, p_root]) (Join (fix_os [p_gone, p_root]) '''' (Mountpoint p_root))
       = Inr u_root
   \<and> Total u_root \<noteq> 0
   \<and> \<not> contains [''cdrom''] (Fstype p_root)
   \<and> (\<exists>tr. gatherDiskInfo (fix_os [p_gone, p_root]) [''cdrom''] ''''
         = Inr ([diskInfo_of p_root u_root], tr))"
proof -
  have h1: "PartitionsWithContext (fix_os [p_gone, p_root]) True = Inr [p_gone, p_root]"
    by (simp add: fix_os_def)
  have h2: "[p_gone, p_root] = [p_gone, p_root] \<or> [p_gone, p_root] = [p_root, p_gone]"
    by simp
  have h3: "Usage (fix_os [p_gone, p_root])
      (Join (fix_os [p_gone, p_root]) '''' (Mountpoint p_gone))
      = Inl (OsError ''no such file or directory'')"
    by (simp add: fixture_defs)
  have h4: "Mountpoint p_root \<noteq> ''''"
    by (simp add: p_root_def)
  have h5: "Usage (fix_os [p_gone, p_root])
      (Join (fix_os [p_gone, p_root]) '''' (Mountpoint p_root)) = Inr u_root"
    by (simp add: fix_os_def fix_Usage_def p_root_def)
  have h6: "Total u_root \<noteq> 0"
    by (simp add: u_root_def)
  have h7: "\<not> contains [''cdrom''] (Fstype p_root)"
    by (simp add: p_root_def)
  from C2_failing_mount_omitted [OF h1 h2 h3 h4 h5 h6 h7] h1 h2 h3 h4 h5 h6 h7 show ?thesis
    by blast
qed

text \<open>
  The claim as stated fails on a vanished network mount followed by \<open>/proc\<close>: the usage
  query of the first fails, the one of the second succeeds, with the total size 0, and
  the call returns no record, not one. It fails in the same way on the vanished mount
  followed by an optical drive whose type \<open>cdrom\<close> is ignored.
\<close>

theorem C2_counterexample:
  "PartitionsWithContext (fix_os [p_gone, p_proc]) True = Inr [p_gone, p_proc]
   \<and> Usage (fix_os [p_gone, p_proc]) (Join (fix_os [p_gone, p_proc]) '''' (Mountpoint p_gone))
       = Inl (OsError ''no such file or directory'')
   \<and> Usage (fix_os [p_gone, p_proc]) (Join (fix_os [p_gone, p_proc]) '''' (Mountpoint p_proc))
       = Inr u_proc
   \<and> gatherDiskInfo (fix_os [p_gone, p_proc]) [] '''' =
       Inr ([],
            [UsageQuery ''/mnt/gone'',
             Log ''Error getting usage for /mnt/gone: no such file or directory'',
             UsageQuery ''/proc'',
             Log ''Partition /proc has total size 0, skipping''])
   \<and> \<not> (\<exists>r tr. gatherDiskInfo (fix_os [p_gone, p_proc]) [] '''' = Inr ([r], tr))
   \<and> Usage (fix_os [p_gone, p_cdrom]) (Join (fix_os [p_gone, p_cdrom]) '''' (Mountpoint p_cdrom))
       = Inr u_cdrom
   \<and> Total u_cdrom = 2048
   \<and> \<not> (\<exists>r tr. gatherDiskInfo (fix_os [p_gone, p_cdrom]) [''cdrom''] '''' = Inr ([r], tr))"
  by (simp add: fix_run_gone_proc fix_run_gone_cdrom) (simp add: fixture_defs)

text \<open>
  C3. A partition whose file system type is a member of \<open>ignoreTypes\<close> leaves no record,
  whatever its usage values: the records are those of the enumeration without it, and no
  record has an ignored type. The test is on the type alone, for equality with a member
  of the list: the records of a call are exactly those of the partitions whose type is
  not a member of \<open>ignoreTypes\<close> and that are valid, in order, so a valid partition whose
  type is not in the list is kept whatever its device name is, even a device name that
  is in the list or that contains a member of it.
\<close>

theorem C3_ignored_type_omitted:
  assumes "PartitionsWithContext os True = Inr ps"
  shows "\<exists>recs tr.
    gatherDiskInfo os ignoreTypes hostProc = Inr (recs, tr) \<and>
    recs = List.map_filter
             (\<lambda>p. if Fstype p \<in> set ignoreTypes then None
                  else map_option (diskInfo_of p) (valid_sample os hostProc p)) ps \<and>
    map Device recs = map PartitionStat.Device
      (filter (\<lambda>p. Fstype p \<notin> set ignoreTypes \<and> valid os hostProc p) ps) \<and>
    (\<forall>r \<in> set recs. Type r \<notin> set ignoreTypes) \<and>
    (\<forall>t. contains ignoreTypes t = (t \<in> set ignoreTypes)) \<and>
    (\<forall>ps1 p ps2. ps = ps1 @ p # ps2 \<and> Fstype p \<in> set ignoreTypes \<longrightarrow>
       (\<exists>tr'. gatherDiskInfo (os\<lparr>PartitionsWithContext := \<lambda>all. Inr (ps1 @ ps2)\<rparr>)
                 ignoreTypes hostProc = Inr (recs, tr')))"
proof -
  let ?recs = "concat (map (emitted os ignoreTypes hostProc) ps)"
  let ?tr = "concat (map (events_of os ignoreTypes hostProc) ps)"
  have g: "gatherDiskInfo os ignoreTypes hostProc = Inr (?recs, ?tr)"
    using assms by (rule gatherDiskInfo_eq)
  have m: "?recs = List.map_filter
             (\<lambda>p. if Fstype p \<in> set ignoreTypes then None
                  else map_option (diskInfo_of p) (valid_sample os hostProc p)) ps"
    by (rule concat_emitted)
  have d: "map Device ?recs = map PartitionStat.Device
      (filter (\<lambda>p. Fstype p \<notin> set ignoreTypes \<and> valid os hostProc p) ps)"
    by (induction ps) (auto simp: emitted_cases valid_def diskInfo_of_def split: option.splits)
  have t: "\<forall>r \<in> set ?recs. Type r \<notin> set ignoreTypes"
  proof
    fix r
    assume "r \<in> set ?recs"
    then obtain q where "r \<in> set (emitted os ignoreTypes hostProc q)"
      by auto
    then show "Type r \<notin> set ignoreTypes"
      by (rule emitted_elim) (simp add: diskInfo_of_def contains_set)
  qed
  have c: "\<forall>t. contains ignoreTypes t = (t \<in> set ignoreTypes)"
    by (simp add: contains_set)
  have x: "\<forall>ps1 p ps2. ps = ps1 @ p # ps2 \<and> Fstype p \<in> set ignoreTypes \<longrightarrow>
       (\<exists>tr'. gatherDiskInfo (os\<lparr>PartitionsWithContext := \<lambda>all. Inr (ps1 @ ps2)\<rparr>)
                 ignoreTypes hostProc = Inr (?recs, tr'))"
  proof (intro allI impI)
    fix ps1 p ps2
    assume a: "ps = ps1 @ p # ps2 \<and> Fstype p \<in> set ignoreTypes"
    then have e: "emitted os ignoreTypes hostProc p = []"
      by (simp add: emitted_cases)
    from assms a have "PartitionsWithContext os True = Inr (ps1 @ p # ps2)"
      by simp
    from gatherDiskInfo_drop [OF this e] a
    show "\<exists>tr'. gatherDiskInfo (os\<lparr>PartitionsWithContext := \<lambda>all. Inr (ps1 @ ps2)\<rparr>)
                 ignoreTypes hostProc = Inr (?recs, tr')"
      by auto
  qed
  from g m d t c x show ?thesis
    by blast
qed

text \<open>
  The theorem with \<open>cdrom\<close> and \<open>/dev/sda1\<close> in the list, on an optical drive of type
  \<open>cdrom\<close>, an \<open>ext4\<close> volume whose device name contains \<open>cdrom\<close> and the root file
  system, whose device name \<open>/dev/sda1\<close> is in the list: the first is left out, the
  other two are kept.
\<close>

theorem C3_ignored_type_omitted_witness:
  "PartitionsWithContext (fix_os [p_cdrom, p_images, p_root]) True
     = Inr [p_cdrom, p_images, p_root]
   \<and> Fstype p_cdrom \<in> set [''cdrom'', ''/dev/sda1'']
   \<and> PartitionStat.Device p_root \<in> set [''cdrom'', ''/dev/sda1'']
   \<and> (\<exists>recs tr tr'.
        gatherDiskInfo (fix_os [p_cdrom, p_images, p_root]) [''cdrom'', ''/dev/sda1''] ''''
          = Inr (recs, tr) \<and>
        recs = [diskInfo_of p_images u_data, diskInfo_of p_root u_root] \<and>
        map Device recs = [''/dev/mapper/cdrom_images'', ''/dev/sda1''] \<and>
        (\<forall>r \<in> set recs. Type r \<notin> set [''cdrom'', ''/dev/sda1'']) \<and>
        gatherDiskInfo ((fix_os [p_cdrom, p_images, p_root])
            \<lparr>PartitionsWithContext := \<lambda>all. Inr ([] @ [p_images, p_root])\<rparr>)
            [''cdrom'', ''/dev/sda1''] ''''
          = Inr (recs, tr'))"
proof -
  let ?os = "fix_os [p_cdrom, p_images, p_root]"
  let ?ig = "[''cdrom'', ''/dev/sda1'']"
  have h: "PartitionsWithContext ?os True = Inr [p_cdrom, p_images, p_root]"
    by (simp add: fix_os_def)
  have t: "Fstype p_cdrom \<in> set ?ig" "PartitionStat.Device p_root \<in> set ?ig"
    by (simp_all add: p_cdrom_def p_root_def)
  have s: "[p_cdrom, p_images, p_root] = [] @ p_cdrom # [p_images, p_root]"
    by simp
  have f: "List.map_filter
       (\<lambda>p. if Fstype p \<in> set ?ig then None
            else map_option (diskInfo_of p) (valid_sample ?os '''' p))
       [p_cdrom, p_images, p_root]
      = [diskInfo_of p_images u_data, diskInfo_of p_root u_root]"
    by (simp add: map_filter_simps valid_sample_def usage_of_def fixture_defs)
  have d: "map Device [diskInfo_of p_images u_data, diskInfo_of p_root u_root]
      = [''/dev/mapper/cdrom_images'', ''/dev/sda1'']"
    by (simp add: diskInfo_of_def p_images_def p_root_def)
  from C3_ignored_type_omitted [OF h, of ?ig "''''"] obtain recs tr where
    g: "gatherDiskInfo ?os ?ig '''' = Inr (recs, tr)"
      "recs = List.map_filter
         (\<lambda>p. if Fstype p \<in> set ?ig then None
              else map_option (diskInfo_of p) (valid_sample ?os '''' p))
         [p_cdrom, p_images, p_root]"
      "\<forall>r \<in> set recs. Type r \<notin> set ?ig"
      "\<forall>ps1 p ps2. [p_cdrom, p_images, p_root] = ps1 @ p # ps2 \<and> Fstype p \<in> set ?ig \<longrightarrow>
         (\<exists>tr'. gatherDiskInfo (?os\<lparr>PartitionsWithContext := \<lambda>all. Inr (ps1 @ ps2)\<rparr>)
                   ?ig '''' = Inr (recs, tr'))"
    by blast
  from g(2) have r: "recs = [diskInfo_of p_images u_data, diskInfo_of p_root u_root]"
    by (simp only: f)
  from g(4) s t(1) obtain tr' where
    x: "gatherDiskInfo (?os\<lparr>PartitionsWithContext := \<lambda>all. Inr ([] @ [p_images, p_root])\<rparr>)
          ?ig '''' = Inr (recs, tr')"
    by blast
  from r d have m: "map Device recs = [''/dev/mapper/cdrom_images'', ''/dev/sda1'']"
    by simp
  from g(1) r m g(3) x have "\<exists>recs tr tr'.
        gatherDiskInfo ?os ?ig '''' = Inr (recs, tr) \<and>
        recs = [diskInfo_of p_images u_data, diskInfo_of p_root u_root] \<and>
        map Device recs = [''/dev/mapper/cdrom_images'', ''/dev/sda1''] \<and>
        (\<forall>r \<in> set recs. Type r \<notin> set ?ig) \<and>
        gatherDiskInfo (?os\<lparr>PartitionsWithContext := \<lambda>all. Inr ([] @ [p_images, p_root])\<rparr>)
            ?ig '''' = Inr (recs, tr')"
    by (intro exI conjI)
  with h t show ?thesis
    by (intro conjI)
qed

text \<open>
  C6. A partition whose usage sample reports the total size 0 leaves no record: the
  records are those of the enumeration without it, and no record has the size 0. The call
  returns normally; a round on such a partition queries the usage, logs the skip and goes
  on, and divides nothing.
\<close>

theorem C6_zero_total_omitted:
  assumes "PartitionsWithContext os True = Inr (ps1 @ p # ps2)"
    and "Usage os (Join os hostProc (Mountpoint p)) = Inr u"
    and "Total u = 0"
  shows "\<exists>recs tr tr'.
    gatherDiskInfo os ignoreTypes hostProc = Inr (recs, tr) \<and>
    gatherDiskInfo (os\<lparr>PartitionsWithContext := \<lambda>all. Inr (ps1 @ ps2)\<rparr>) ignoreTypes hostProc
      = Inr (recs, tr') \<and>
    (\<forall>r \<in> set recs. Size r \<noteq> 0) \<and>
    (Mountpoint p \<noteq> '''' \<longrightarrow>
       gatherDiskInfo_loop os ignoreTypes hostProc [p] ([], []) =
         Inr ([], [UsageQuery (Join os hostProc (Mountpoint p)),
                   Log (''Partition '' @ Mountpoint p @ '' has total size 0, skipping'')]))"
proof -
  have "emitted os ignoreTypes hostProc p = []"
    using assms(2,3) by (simp add: emitted_def usage_of_def)
  from gatherDiskInfo_drop [OF assms(1) this] obtain recs tr tr' where
    g: "gatherDiskInfo os ignoreTypes hostProc = Inr (recs, tr)"
      "gatherDiskInfo (os\<lparr>PartitionsWithContext := \<lambda>all. Inr (ps1 @ ps2)\<rparr>) ignoreTypes hostProc
        = Inr (recs, tr')"
      "recs = concat (map (emitted os ignoreTypes hostProc) (ps1 @ p # ps2))"
    by blast
  have "Size r \<noteq> 0" if "r \<in> set recs" for r
  proof -
    from that g(3) obtain q where "r \<in> set (emitted os ignoreTypes hostProc q)"
      by auto
    then show ?thesis
      by (rule emitted_elim) (simp add: diskInfo_of_def)
  qed
  moreover have "Mountpoint p \<noteq> '''' \<longrightarrow>
       gatherDiskInfo_loop os ignoreTypes hostProc [p] ([], []) =
         Inr ([], [UsageQuery (Join os hostProc (Mountpoint p)),
                   Log (''Partition '' @ Mountpoint p @ '' has total size 0, skipping'')])"
    using assms(2,3) by simp
  ultimately show ?thesis
    using g(1,2) by blast
qed

text \<open>The theorem on \<open>/proc\<close>, of total size 0, between two disks.\<close>

theorem C6_zero_total_omitted_witness:
  "PartitionsWithContext (fix_os [p_root, p_proc, p_data]) True = Inr ([p_root] @ p_proc # [p_data])
   \<and> Usage (fix_os [p_root, p_proc, p_data])
        (Join (fix_os [p_root, p_proc, p_data]) '''' (Mountpoint p_proc)) = Inr u_proc
   \<and> Total u_proc = 0
   \<and> (\<exists>recs tr tr'.
        gatherDiskInfo (fix_os [p_root, p_proc, p_data]) [] '''' = Inr (recs, tr) \<and>
        gatherDiskInfo ((fix_os [p_root, p_proc, p_data])
            \<lparr>PartitionsWithContext := \<lambda>all. Inr ([p_root] @ [p_data])\<rparr>) [] ''''
          = Inr (recs, tr') \<and>
        (\<forall>r \<in> set recs. Size r \<noteq> 0))
   \<and> gatherDiskInfo_loop (fix_os [p_root, p_proc, p_data]) [] '''' [p_proc] ([], []) =
        Inr ([], [UsageQuery ''/proc'', Log ''Partition /proc has total size 0, skipping''])"
proof -
  have h1: "PartitionsWithContext (fix_os [p_root, p_proc, p_data]) True
      = Inr ([p_root] @ p_proc # [p_data])"
    by (simp add: fix_os_def)
  have h2: "Usage (fix_os [p_root, p_proc, p_data])
      (Join (fix_os [p_root, p_proc, p_data]) '''' (Mountpoint p_proc)) = Inr u_proc"
    by (simp add: fix_os_def fix_Usage_def p_proc_def)
  have h3: "Total u_proc = 0"
    by (simp add: u_proc_def)
  have m: "Mountpoint p_proc \<noteq> ''''" "Mountpoint p_proc = ''/proc''"
    "Join (fix_os [p_root, p_proc, p_data]) '''' ''/proc'' = ''/proc''"
    by (simp_all add: p_proc_def fix_os_def)
  from C6_zero_total_omitted [OF h1 h2 h3, of "[]"] obtain recs tr tr' where
    g: "gatherDiskInfo (fix_os [p_root, p_proc, p_data]) [] '''' = Inr (recs, tr)"
      "gatherDiskInfo ((fix_os [p_root, p_proc, p_data])
            \<lparr>PartitionsWithContext := \<lambda>all. Inr ([p_root] @ [p_data])\<rparr>) [] ''''
          = Inr (recs, tr')"
      "\<forall>r \<in> set recs. Size r \<noteq> 0"
      "Mountpoint p_proc \<noteq> '''' \<longrightarrow>
       gatherDiskInfo_loop (fix_os [p_root, p_proc, p_data]) [] '''' [p_proc] ([], []) =
         Inr ([], [UsageQuery (Join (fix_os [p_root, p_proc, p_data]) '''' (Mountpoint p_proc)),
                   Log (''Partition '' @ Mountpoint p_proc @ '' has total size 0, skipping'')])"
    by blast
  from g(4) m have "gatherDiskInfo_loop (fix_os [p_root, p_proc, p_data]) [] '''' [p_proc] ([], []) =
        Inr ([], [UsageQuery ''/proc'', Log ''Partition /proc has total size 0, skipping''])"
    by simp
  with h1 h2 h3 g(1,2,3) show ?thesis
    by blast
qed

text \<open>
  C7. A partition whose mount point is the empty string leaves no record: the records
  are those of the enumeration without it. It is not an error: the call returns normally
  and the round on it only logs the skip. Its usage is never queried: the usage queries
  of the call are those of the partitions with a mount point, in order, the same as
  without it.
\<close>

theorem C7_empty_mountpoint_omitted:
  assumes "PartitionsWithContext os True = Inr (ps1 @ p # ps2)" and "Mountpoint p = ''''"
  shows "\<exists>recs tr tr'.
    gatherDiskInfo os ignoreTypes hostProc = Inr (recs, tr) \<and>
    gatherDiskInfo (os\<lparr>PartitionsWithContext := \<lambda>all. Inr (ps1 @ ps2)\<rparr>) ignoreTypes hostProc
      = Inr (recs, tr') \<and>
    usage_queries tr = usage_queries tr' \<and>
    usage_queries tr = map (\<lambda>q. Join os hostProc (Mountpoint q))
      (filter (\<lambda>q. Mountpoint q \<noteq> '''') (ps1 @ p # ps2)) \<and>
    gatherDiskInfo_loop os ignoreTypes hostProc [p] ([], []) =
      Inr ([], [Log (''Partition '' @ PartitionStat.Device p @ '' has no mountpoint, skipping'')])"
proof -
  have e: "emitted os ignoreTypes hostProc p = []"
    using assms(2) by (simp add: emitted_def)
  from gatherDiskInfo_drop [OF assms(1) e] obtain recs tr tr' where
    g: "gatherDiskInfo os ignoreTypes hostProc = Inr (recs, tr)"
      "gatherDiskInfo (os\<lparr>PartitionsWithContext := \<lambda>all. Inr (ps1 @ ps2)\<rparr>) ignoreTypes hostProc
        = Inr (recs, tr')"
      "tr = concat (map (events_of os ignoreTypes hostProc) (ps1 @ p # ps2))"
      "tr' = concat (map (events_of os ignoreTypes hostProc) (ps1 @ ps2))"
    by blast
  have q: "usage_queries tr = map (\<lambda>q. Join os hostProc (Mountpoint q))
      (filter (\<lambda>q. Mountpoint q \<noteq> '''') (ps1 @ p # ps2))"
    by (simp only: g(3) usage_queries_concat)
  have q': "usage_queries tr' = map (\<lambda>q. Join os hostProc (Mountpoint q))
      (filter (\<lambda>q. Mountpoint q \<noteq> '''') (ps1 @ ps2))"
    by (simp only: g(4) usage_queries_concat)
  have same: "usage_queries tr = usage_queries tr'"
    using assms(2) by (simp add: q q')
  have one: "gatherDiskInfo_loop os ignoreTypes hostProc [p] ([], []) =
      Inr ([], [Log (''Partition '' @ PartitionStat.Device p @ '' has no mountpoint, skipping'')])"
    using assms(2) by simp
  from g(1,2) same q one show ?thesis
    by blast
qed

text \<open>The theorem on a partition without mount point before the root file system.\<close>

theorem C7_empty_mountpoint_omitted_witness:
  "PartitionsWithContext (fix_os [p_nomount, p_root]) True = Inr ([] @ p_nomount # [p_root])
   \<and> Mountpoint p_nomount = ''''
   \<and> (\<exists>recs tr tr'.
        gatherDiskInfo (fix_os [p_nomount, p_root]) [] '''' = Inr (recs, tr) \<and>
        gatherDiskInfo ((fix_os [p_nomount, p_root])
            \<lparr>PartitionsWithContext := \<lambda>all. Inr ([] @ [p_root])\<rparr>) [] '''' = Inr (recs, tr') \<and>
        usage_queries tr = usage_queries tr' \<and>
        usage_queries tr = [''/''] \<and>
        gatherDiskInfo_loop (fix_os [p_nomount, p_root]) [] '''' [p_nomount] ([], []) =
          Inr ([], [Log ''Partition /dev/sdc1 has no mountpoint, skipping'']))"
proof -
  have h1: "PartitionsWithContext (fix_os [p_nomount, p_root]) True
      = Inr ([] @ p_nomount # [p_root])"
    by (simp add: fix_os_def)
  have h2: "Mountpoint p_nomount = ''''"
    by (simp add: p_nomount_def)
  have q: "map (\<lambda>q. Join (fix_os [p_nomount, p_root]) '''' (Mountpoint q))
      (filter (\<lambda>q. Mountpoint q \<noteq> '''') ([] @ p_nomount # [p_root])) = [''/'']"
    by (simp add: fix_os_def p_nomount_def p_root_def)
  have d: "''Partition '' @ PartitionStat.Device p_nomount @ '' has no mountpoint, skipping''
      = ''Partition /dev/sdc1 has no mountpoint, skipping''"
    by (simp add: p_nomount_def)
  from C7_empty_mountpoint_omitted [OF h1 h2, of "[]" "''''"] obtain recs tr tr' where
    g: "gatherDiskInfo (fix_os [p_nomount, p_root]) [] '''' = Inr (recs, tr)"
      "gatherDiskInfo ((fix_os [p_nomount, p_root])
            \<lparr>PartitionsWithContext := \<lambda>all. Inr ([] @ [p_root])\<rparr>) [] '''' = Inr (recs, tr')"
      "usage_queries tr = usage_queries tr'"
      "usage_queries tr = map (\<lambda>q. Join (fix_os [p_nomount, p_root]) '''' (Mountpoint q))
        (filter (\<lambda>q. Mountpoint q \<noteq> '''') ([] @ p_nomount # [p_root]))"
      "gatherDiskInfo_loop (fix_os [p_nomount, p_root]) [] '''' [p_nomount] ([], []) =
        Inr ([], [Log (''Partition '' @ PartitionStat.Device p_nomount
                       @ '' has no mountpoint, skipping'')])"
    by blast
  from g(4) have q': "usage_queries tr = [''/'']"
    by (simp only: q)
  from g(5) have one: "gatherDiskInfo_loop (fix_os [p_nomount, p_root]) [] '''' [p_nomount] ([], []) =
      Inr ([], [Log ''Partition /dev/sdc1 has no mountpoint, skipping''])"
    by (simp only: d)
  from h1 h2 g(1,2,3) q' one show ?thesis
    by blast
qed

subsection \<open>Enumeration\<close>

text \<open>
  C8. If the enumeration of the partitions fails, \<open>gatherDiskInfo\<close> returns the empty
  sequence: a normal return, not a panic and not an error, with nothing but the logged
  error.
\<close>

theorem C8_enumeration_failure:
  "PartitionsWithContext os True = Inl err \<Longrightarrow>
   gatherDiskInfo os ignoreTypes hostProc =
     Inr ([], [Log (''Error retrieving partitions: '' @ error_text err)])"
  by (simp add: gatherDiskInfo_def)

text \<open>The theorem on a machine that refuses the enumeration.\<close>

theorem C8_enumeration_failure_witness:
  "PartitionsWithContext fix_os_failing True = Inl (OsError ''permission denied'')
   \<and> gatherDiskInfo fix_os_failing [''cdrom''] ''''
       = Inr ([], [Log ''Error retrieving partitions: permission denied''])"
proof -
  have h: "PartitionsWithContext fix_os_failing True = Inl (OsError ''permission denied'')"
    by (simp add: fix_os_failing_def)
  from C8_enumeration_failure [OF h, of "[''cdrom'']" "''''"] h show ?thesis
    by simp
qed

text \<open>
  C9. With an empty \<open>ignoreTypes\<close>, \<open>gatherDiskInfo\<close> returns exactly one record for
  each valid partition (a mount point that is not empty, a usage query that succeeds, a
  total size that is not zero) and none for the others, in the order of the enumeration:
  the records are the valid partitions' records, mapped over the enumeration in order, so
  their devices are the devices of the valid partitions in enumeration order.
\<close>

theorem C9_one_record_per_valid_partition:
  assumes "PartitionsWithContext os True = Inr ps"
  shows "\<exists>recs tr. gatherDiskInfo os [] hostProc = Inr (recs, tr)
    \<and> recs = List.map_filter (\<lambda>p. map_option (diskInfo_of p) (valid_sample os hostProc p)) ps
    \<and> length recs = length (filter (valid os hostProc) ps)
    \<and> map Device recs = map PartitionStat.Device (filter (valid os hostProc) ps)"
proof -
  let ?recs = "List.map_filter (\<lambda>p. map_option (diskInfo_of p) (valid_sample os hostProc p)) ps"
  have g: "gatherDiskInfo os [] hostProc = Inr (?recs, concat (map (events_of os [] hostProc) ps))"
    using gatherDiskInfo_eq [OF assms, of "[]" hostProc]
    by (simp only: concat_emitted_no_ignore)
  have d: "map Device ?recs = map PartitionStat.Device (filter (valid os hostProc) ps)"
    by (rule map_filter_valid_Device)
  then have "length (map Device ?recs)
      = length (map PartitionStat.Device (filter (valid os hostProc) ps))"
    by (rule arg_cong)
  then have "length ?recs = length (filter (valid os hostProc) ps)"
    by (simp only: length_map)
  with g d show ?thesis
    by blast
qed

text \<open>
  The theorem on five partitions, of which the first and the last are valid: two
  records, of \<open>/dev/sda1\<close> and \<open>/dev/sdb1\<close> in this order.
\<close>

theorem C9_one_record_per_valid_partition_witness:
  "PartitionsWithContext (fix_os [p_root, p_nomount, p_gone, p_proc, p_data]) True
     = Inr [p_root, p_nomount, p_gone, p_proc, p_data]
   \<and> (\<exists>recs tr.
        gatherDiskInfo (fix_os [p_root, p_nomount, p_gone, p_proc, p_data]) [] '''' = Inr (recs, tr)
        \<and> length recs = 2
        \<and> map Device recs = [''/dev/sda1'', ''/dev/sdb1''])"
proof -
  have h: "PartitionsWithContext (fix_os [p_root, p_nomount, p_gone, p_proc, p_data]) True
     = Inr [p_root, p_nomount, p_gone, p_proc, p_data]"
    by (simp add: fix_os_def)
  have f: "filter (valid (fix_os [p_root, p_nomount, p_gone, p_proc, p_data]) '''')
      [p_root, p_nomount, p_gone, p_proc, p_data] = [p_root, p_data]"
    by (simp add: valid_def valid_sample_def usage_of_def fixture_defs)
  have d: "map PartitionStat.Device [p_root, p_data] = [''/dev/sda1'', ''/dev/sdb1'']"
    "length [p_root, p_data] = 2"
    by (simp_all add: p_root_def p_data_def)
  from C9_one_record_per_valid_partition [OF h, of "''''"] obtain recs tr where
    g: "gatherDiskInfo (fix_os [p_root, p_nomount, p_gone, p_proc, p_data]) [] '''' = Inr (recs, tr)"
      "length recs = length (filter (valid (fix_os [p_root, p_nomount, p_gone, p_proc, p_data]) '''')
        [p_root, p_nomount, p_gone, p_proc, p_data])"
      "map Device recs = map PartitionStat.Device
        (filter (valid (fix_os [p_root, p_nomount, p_gone, p_proc, p_data]) '''')
          [p_root, p_nomount, p_gone, p_proc, p_data])"
    by blast
  from g(2) have l: "length recs = 2"
    by (simp only: f d)
  from g(3) have m: "map Device recs = [''/dev/sda1'', ''/dev/sdb1'']"
    by (simp only: f d)
  from h g(1) l m show ?thesis
    by auto
qed

end

